theory Spec2Isabelle
  imports Complex_Main
begin

section \<open>Data model of \<open>main.cpp\<close>\<close>

text \<open>
  \<open>sf::Vector2i\<close> is a pair of C++ \<open>int\<close>s with component-wise equality and
  addition. Coordinates and the score are modelled as unbounded integers: in
  every state the game loop reaches, a coordinate lies between \<open>-1\<close> and
  \<open>COLS\<close> and the score between 0 and 12010 (lemmas \<open>frames_safe\<close> and
  \<open>safe_bounds\<close> below), far from the 32-bit limits, so no overflow is involved.
\<close>

type_synonym Vector2i = "int \<times> int"

definition vadd :: "Vector2i \<Rightarrow> Vector2i \<Rightarrow> Vector2i" where
  "vadd a b = (fst a + fst b, snd a + snd b)"

definition vneg :: "Vector2i \<Rightarrow> Vector2i" where
  "vneg a = (- fst a, - snd a)"

definition BLOCK :: int where "BLOCK = 20"
definition COLS :: int where "COLS = 40"
definition ROWS :: int where "ROWS = 30"

text \<open>
  \<open>struct Snake\<close>: the deque \<open>body\<close> (front of the deque = head of the list), the
  heading \<open>dir\<close> and the flag \<open>grow\<close>.
\<close>

record Snake =
  body :: "Vector2i list"
  dir :: Vector2i
  grow :: bool

text \<open>The constructor \<open>Snake(start)\<close>: one segment, heading \<open>{1,0}\<close>, no growth.\<close>

definition Snake_init :: "Vector2i \<Rightarrow> Snake" where
  "Snake_init start = \<lparr>body = [start], dir = (1, 0), grow = False\<rparr>"

text \<open>
  \<open>nextHead\<close> reads \<open>body.front()\<close>, which is undefined behaviour on an empty
  deque: that case is the value \<open>None\<close>.
\<close>

definition nextHead :: "Snake \<Rightarrow> Vector2i option" where
  "nextHead s = (case body s of [] \<Rightarrow> None | h # _ \<Rightarrow> Some (vadd h (dir s)))"

definition push_front :: "'a \<Rightarrow> 'a list \<Rightarrow> 'a list" where
  "push_front x xs = x # xs"

definition pop_back :: "'a list \<Rightarrow> 'a list" where
  "pop_back xs = butlast xs"

text \<open>
  \<open>Snake::move\<close>: push the next head, then either drop the last segment or clear
  the growth flag. \<open>pop_back\<close> is only reached after \<open>push_front\<close>, on a deque
  that is not empty.
\<close>

definition move :: "Snake \<Rightarrow> Snake option" where
  "move s =
     (case nextHead s of
        None \<Rightarrow> None
      | Some nh \<Rightarrow>
          (let s1 = s\<lparr>body := push_front nh (body s)\<rparr>
           in if \<not> grow s1 then Some (s1\<lparr>body := pop_back (body s1)\<rparr>)
              else Some (s1\<lparr>grow := False\<rparr>)))"

text \<open>
  \<open>Snake::hitsSelf\<close>: the loop \<open>for (i = 1; i < body.size(); ++i)\<close> comparing
  \<open>body[i]\<close> with \<open>body.front()\<close>. The front is only read when \<open>1 \<le> i < size\<close>.
\<close>

function hitsSelf_loop :: "Vector2i list \<Rightarrow> nat \<Rightarrow> bool" where
  "hitsSelf_loop b i =
     (if i < length b
      then (if b ! i = hd b then True else hitsSelf_loop b (Suc i))
      else False)"
  by pat_completeness auto
termination
  by (relation "measure (\<lambda>(b, i). length b - i)") auto

declare hitsSelf_loop.simps [simp del]

definition hitsSelf :: "Snake \<Rightarrow> bool" where
  "hitsSelf s = hitsSelf_loop (body s) 1"

text \<open>\<open>Snake::occupies\<close>: the range-for over the body, returning at the first match.\<close>

fun occupies_loop :: "Vector2i list \<Rightarrow> Vector2i \<Rightarrow> bool" where
  "occupies_loop [] p = False"
| "occupies_loop (b # bs) p = (if b = p then True else occupies_loop bs p)"

definition occupies :: "Snake \<Rightarrow> Vector2i \<Rightarrow> bool" where
  "occupies s p = occupies_loop (body s) p"

section \<open>Keyboard steering\<close>

text \<open>The key codes the event loop looks at; every other key is \<open>OtherKey\<close>.\<close>

datatype Key = Up | Down | Left | Right | W | S | A | D | R | OtherKey

text \<open>
  One line of the key block:
  \<open>if (ev.key.code == k) { if (snake.dir != opp) snake.dir = new; }\<close>.
\<close>

definition steer :: "Key \<Rightarrow> Key \<Rightarrow> Vector2i \<Rightarrow> Vector2i \<Rightarrow> Snake \<Rightarrow> Snake" where
  "steer code k opp new s =
     (if code = k then (if dir s \<noteq> opp then s\<lparr>dir := new\<rparr> else s) else s)"

text \<open>The eight lines in the order of the source (lines 97 to 104).\<close>

definition redirect :: "Key \<Rightarrow> Snake \<Rightarrow> Snake" where
  "redirect code s =
     (let s1 = steer code Up (0, 1) (0, -1) s;
          s2 = steer code Down (0, -1) (0, 1) s1;
          s3 = steer code Left (1, 0) (-1, 0) s2;
          s4 = steer code Right (-1, 0) (1, 0) s3;
          s5 = steer code W (0, 1) (0, -1) s4;
          s6 = steer code S (0, -1) (0, 1) s5;
          s7 = steer code A (1, 0) (-1, 0) s6;
          s8 = steer code D (-1, 0) (1, 0) s7
      in s8)"

text \<open>
  The heading a key asks for: the vector its line assigns. Keys outside the
  eight steering keys ask for nothing.
\<close>

fun request_of :: "Key \<Rightarrow> Vector2i option" where
  "request_of Up = Some (0, -1)"
| "request_of W = Some (0, -1)"
| "request_of Down = Some (0, 1)"
| "request_of S = Some (0, 1)"
| "request_of Left = Some (-1, 0)"
| "request_of A = Some (-1, 0)"
| "request_of Right = Some (1, 0)"
| "request_of D = Some (1, 0)"
| "request_of R = None"
| "request_of OtherKey = None"

section \<open>Food placement\<close>

text \<open>
  The generator \<open>rng\<close> and the two distributions belong to the C++ library. The
  model takes the generator as the infinite sequence \<open>draws\<close> of the pairs
  \<open>{dx(rng), dy(rng)}\<close> it will produce, and threads the number of pairs
  already consumed. \<open>std::uniform_int_distribution<int>(a, b)\<close> only returns
  values from \<open>a\<close> to \<open>b\<close>: a sequence with that property is \<open>in_range\<close>.
\<close>

type_synonym Draws = "nat \<Rightarrow> Vector2i"


text \<open>
  The loop \<open>do { p = {dx(rng), dy(rng)}; } while (snake.occupies(p));\<close>. It runs
  for ever when every later draw is occupied: that is the value \<open>None\<close>.
\<close>

partial_function (option) spawnFood_loop :: "Snake \<Rightarrow> Draws \<Rightarrow> nat \<Rightarrow> (Vector2i \<times> nat) option" where
  "spawnFood_loop snake draws i =
     (let p = draws i
      in if occupies snake p then spawnFood_loop snake draws (Suc i) else Some (p, Suc i))"

declare spawnFood_loop.simps [code]

text \<open>\<open>spawnFood\<close>: the position and the number of draws consumed afterwards.\<close>

definition spawnFood :: "Snake \<Rightarrow> Draws \<Rightarrow> nat \<Rightarrow> (Vector2i \<times> nat) option" where
  "spawnFood snake draws i =
     (if int (length (body snake)) \<ge> COLS * ROWS then Some ((-1, -1), i)
      else spawnFood_loop snake draws i)"

section \<open>The high score file\<close>

text \<open>
  The file \<open>highscore.txt\<close> and what the program does to it: \<open>contents\<close> is its
  content (\<open>None\<close> when it cannot be opened for reading), \<open>writable\<close> tells
  whether \<open>std::ofstream\<close> can open it, and \<open>save_calls\<close> lists the arguments
  of the calls of \<open>saveHighscore\<close> so far, oldest first.
\<close>

record World =
  contents :: "string option"
  writable :: bool
  save_calls :: "int list"

definition INT_MIN :: int where "INT_MIN = - 2147483648"
definition INT_MAX :: int where "INT_MAX = 2147483647"

text \<open>
  \<open>in >> h\<close> for an \<open>int\<close>, as the C++ standard library defines formatted
  extraction in the classic locale: skip white space, take an optional sign and
  the longest run of decimal digits; the extraction fails when there is no
  digit or when the value does not fit an \<open>int\<close>.
\<close>

definition is_space :: "char \<Rightarrow> bool" where
  "is_space c = (c \<in> {CHR '' '', CHR 0x09, CHR 0x0A, CHR 0x0B, CHR 0x0C, CHR 0x0D})"

definition is_digit :: "char \<Rightarrow> bool" where
  "is_digit c = (48 \<le> (of_char c :: nat) \<and> (of_char c :: nat) \<le> 57)"

definition digit_val :: "char \<Rightarrow> int" where
  "digit_val c = int (of_char c) - 48"

definition dec_val :: "string \<Rightarrow> int" where
  "dec_val ds = foldl (\<lambda>a c. 10 * a + digit_val c) 0 ds"

definition take_sign :: "string \<Rightarrow> bool \<times> string" where
  "take_sign r =
     (case r of
        [] \<Rightarrow> (False, r)
      | x # xs \<Rightarrow>
          if x = CHR ''-'' then (True, xs)
          else if x = CHR ''+'' then (False, xs)
          else (False, r))"

definition extract_int :: "string \<Rightarrow> int option" where
  "extract_int c =
     (let (neg, r) = take_sign (dropWhile is_space c);
          ds = takeWhile is_digit r;
          v = (if neg then - dec_val ds else dec_val ds)
      in if ds = [] then None
         else if INT_MIN \<le> v \<and> v \<le> INT_MAX then Some v
         else None)"

text \<open>
  \<open>loadHighscore\<close>: \<open>int h = 0; if (in >> h) return h; return 0;\<close>. A stream
  that could not be opened fails every extraction.
\<close>

definition loadHighscore :: "World \<Rightarrow> int" where
  "loadHighscore w =
     (case contents w of
        None \<Rightarrow> 0
      | Some c \<Rightarrow> (case extract_int c of Some h \<Rightarrow> h | None \<Rightarrow> 0))"

text \<open>\<open>out << s\<close>: the decimal digits of \<open>s\<close>, after a minus sign when negative.\<close>

function digits_of :: "nat \<Rightarrow> string" where
  "digits_of n =
     (if n < 10 then [char_of (48 + n)]
      else digits_of (n div 10) @ [char_of (48 + n mod 10)])"
  by pat_completeness auto
termination
  by (relation "measure id") auto

declare digits_of.simps [simp del]

definition to_string :: "int \<Rightarrow> string" where
  "to_string i = (if i < 0 then CHR ''-'' # digits_of (nat (- i)) else digits_of (nat i))"

text \<open>
  \<open>saveHighscore\<close>: \<open>std::ofstream out(path); if (out) out << s;\<close>. Opening
  truncates the file; when it cannot be opened nothing is written and nothing
  is reported.
\<close>

definition saveHighscore :: "int \<Rightarrow> World \<Rightarrow> World" where
  "saveHighscore s w =
     (let w1 = w\<lparr>save_calls := save_calls w @ [s]\<rparr>
      in if writable w1 then w1\<lparr>contents := Some (to_string s)\<rparr> else w1)"

section \<open>Single-precision numbers\<close>

text \<open>
  A C++ \<open>float\<close> is an IEEE 754 binary32 number; the model takes it as the
  real number it denotes. \<open>f32_round\<close> is the rounding every single-precision
  operation ends with: to the nearest number with a significand of 24 bits,
  ties to the even significand. The exponent of a number lies between \<open>-126\<close>
  and \<open>127\<close>, and the numbers below \<open>2 powi (-126)\<close> share the exponent
  \<open>-126\<close>. Results of magnitude \<open>2 powi 128\<close> and more, infinite in the
  machine, do not arise here. A literal such as \<open>0.95f\<close> is the rounded decimal,
  \<open>f32_round (95 / 100)\<close>, and a product of two floats \<open>a * b\<close> is
  \<open>f32_round (a * b)\<close>.
\<close>

definition round_even :: "real \<Rightarrow> int" where
  "round_even y =
     (let f = \<lfloor>y\<rfloor>; r = y - of_int f
      in if r < 1 / 2 then f
         else if r > 1 / 2 then f + 1
         else if even f then f else f + 1)"

fun exponent_up :: "real \<Rightarrow> int \<Rightarrow> nat \<Rightarrow> int" where
  "exponent_up x e 0 = e"
| "exponent_up x e (Suc n) = (if x < 2 powi (e + 1) then e else exponent_up x (e + 1) n)"

fun exponent_down :: "real \<Rightarrow> int \<Rightarrow> nat \<Rightarrow> int" where
  "exponent_down x e 0 = e"
| "exponent_down x e (Suc n) = (if 2 powi e \<le> x then e else exponent_down x (e - 1) n)"

definition f32_exponent :: "real \<Rightarrow> int" where
  "f32_exponent x =
     (if 1 \<le> \<bar>x\<bar> then exponent_up \<bar>x\<bar> 0 127 else exponent_down \<bar>x\<bar> (- 1) 125)"

definition f32_round :: "real \<Rightarrow> real" where
  "f32_round x = (let q = 2 powi (f32_exponent x - 23) in of_int (round_even (x / q)) * q)"

section \<open>The game loop of \<open>main\<close>\<close>

text \<open>
  The local variables of \<open>main\<close> that the loop changes, with the generator
  position and the outside world. The interval \<open>moveDelay\<close> is a \<open>float\<close>: it
  starts as \<open>0.12f\<close> and line 133 changes it in single precision. The
  accumulator \<open>acc\<close> and the frame time only decide in which frame a tick
  fires; they are kept as exact real numbers, and no statement below depends
  on when a tick fires.
\<close>

record Game =
  snake :: Snake
  food :: Vector2i
  moveDelay :: real
  acc_s :: real
  gameOver :: bool
  score :: int
  highscore :: int
  rng :: nat
  window_open :: bool
  world :: World

definition resetGame :: Snake where
  "resetGame = Snake_init (COLS div 2, ROWS div 2)"

text \<open>Lines 82 to 89: the state before the first frame.\<close>

definition init_game :: "Draws \<Rightarrow> World \<Rightarrow> Game option" where
  "init_game draws w =
     (case spawnFood resetGame draws 0 of
        None \<Rightarrow> None
      | Some (p, r) \<Rightarrow>
          Some \<lparr>snake = resetGame, food = p, moveDelay = f32_round (12 / 100), acc_s = 0,
                gameOver = False, score = 0, highscore = loadHighscore w,
                rng = r, window_open = True, world = w\<rparr>)"

datatype Event = Closed | KeyPressed Key | OtherEvent

text \<open>The restart on the key R (lines 107 to 109).\<close>

definition restart :: "Draws \<Rightarrow> Game \<Rightarrow> Game option" where
  "restart draws g =
     (case spawnFood resetGame draws (rng g) of
        None \<Rightarrow> None
      | Some (p, r) \<Rightarrow>
          Some (g\<lparr>snake := resetGame, food := p, rng := r,
                  moveDelay := f32_round (12 / 100),
                  acc_s := 0, gameOver := False, score := 0\<rparr>))"

text \<open>The body of the event loop for one event (lines 94 to 111).\<close>

definition handle_event :: "Draws \<Rightarrow> Event \<Rightarrow> Game \<Rightarrow> Game option" where
  "handle_event draws ev g =
     (let g1 = (if ev = Closed then g\<lparr>window_open := False\<rparr> else g)
      in case ev of
           KeyPressed code \<Rightarrow>
             (let g2 = (if \<not> gameOver g1 then g1\<lparr>snake := redirect code (snake g1)\<rparr> else g1)
              in if gameOver g2 \<and> code = R then restart draws g2 else Some g2)
         | _ \<Rightarrow> Some g1)"

text \<open>\<open>while (window.pollEvent(ev))\<close> over the events the window delivers in one frame.\<close>

fun poll_events :: "Draws \<Rightarrow> Event list \<Rightarrow> Game \<Rightarrow> Game option" where
  "poll_events draws [] g = Some g"
| "poll_events draws (ev # evs) g =
     (case handle_event draws ev g of
        None \<Rightarrow> None
      | Some g' \<Rightarrow> poll_events draws evs g')"

definition out_of_bounds :: "Vector2i \<Rightarrow> bool" where
  "out_of_bounds h = (fst h < 0 \<or> fst h \<ge> COLS \<or> snd h < 0 \<or> snd h \<ge> ROWS)"

text \<open>
  Lines 118 to 126: the move and the two collision tests. The result carries the
  head \<open>h\<close> read once after the move.
\<close>

definition advance :: "Game \<Rightarrow> (Game \<times> Vector2i) option" where
  "advance g =
     (case move (snake g) of
        None \<Rightarrow> None
      | Some sn \<Rightarrow>
          (case body sn of
             [] \<Rightarrow> None
           | h # _ \<Rightarrow>
               (let g1 = g\<lparr>snake := sn\<rparr>;
                    g2 = (if out_of_bounds h then g1\<lparr>gameOver := True\<rparr> else g1);
                    g3 = (if hitsSelf (snake g2) then g2\<lparr>gameOver := True\<rparr> else g2)
                in Some (g3, h))))"

text \<open>The condition of the eating rule (line 129).\<close>

definition eating :: "Game \<Rightarrow> Vector2i \<Rightarrow> bool" where
  "eating g h = (\<not> gameOver g \<and> h = food g)"

text \<open>
  Lines 130 to 134: the eating rule itself. Line 133 is
  \<open>moveDelay = std::max(0.03f, moveDelay * 0.95f)\<close>, a single-precision product.
\<close>

definition eat :: "Draws \<Rightarrow> Game \<Rightarrow> Game option" where
  "eat draws g =
     (let g1 = g\<lparr>snake := (snake g)\<lparr>grow := True\<rparr>\<rparr>;
          g2 = g1\<lparr>score := score g1 + 10\<rparr>;
          g3 = g2\<lparr>moveDelay :=
                    max (f32_round (3 / 100)) (f32_round (moveDelay g2 * f32_round (95 / 100)))\<rparr>
      in case spawnFood (snake g3) draws (rng g3) of
           None \<Rightarrow> None
         | Some (p, r) \<Rightarrow> Some (g3\<lparr>food := p, rng := r\<rparr>))"

text \<open>One tick: lines 118 to 135.\<close>

definition tick :: "Draws \<Rightarrow> Game \<Rightarrow> Game option" where
  "tick draws g =
     (case advance g of
        None \<Rightarrow> None
      | Some (g3, h) \<Rightarrow> if eating g3 h then eat draws g3 else Some g3)"

text \<open>Lines 163 and 164: the high score on a frame that ends in game over.\<close>

definition record_highscore :: "Game \<Rightarrow> Game" where
  "record_highscore g =
     (if gameOver g
      then (if score g > highscore g
            then (let g1 = g\<lparr>highscore := score g\<rparr>
                  in g1\<lparr>world := saveHighscore (highscore g1) (world g1)\<rparr>)
            else g)
      else g)"

text \<open>
  One pass of \<open>while (window.isOpen())\<close>, given the events of the frame and the
  time \<open>dt\<close> the clock reports. Drawing changes nothing in the state.
\<close>

definition frame :: "Draws \<Rightarrow> Event list \<times> real \<Rightarrow> Game \<Rightarrow> Game option" where
  "frame draws inp g =
     (case poll_events draws (fst inp) g of
        None \<Rightarrow> None
      | Some g1 \<Rightarrow>
          (let g2 = g1\<lparr>acc_s := acc_s g1 + snd inp\<rparr>
           in case (if \<not> gameOver g2 \<and> acc_s g2 \<ge> moveDelay g2
                    then tick draws (g2\<lparr>acc_s := acc_s g2 - moveDelay g2\<rparr>)
                    else Some g2) of
                None \<Rightarrow> None
              | Some g3 \<Rightarrow> Some (record_highscore g3)))"

text \<open>The loop itself, over the inputs of successive frames, while the window is open.\<close>

fun frames :: "Draws \<Rightarrow> (Event list \<times> real) list \<Rightarrow> Game \<Rightarrow> Game option" where
  "frames draws [] g = Some g"
| "frames draws (inp # inps) g =
     (if window_open g
      then (case frame draws inp g of
              None \<Rightarrow> None
            | Some g' \<Rightarrow> frames draws inps g')
      else Some g)"

text \<open>Ticks alone, one after the other; the loop fires none once the game is over.\<close>

fun ticks :: "Draws \<Rightarrow> nat \<Rightarrow> Game \<Rightarrow> Game option" where
  "ticks draws 0 g = Some g"
| "ticks draws (Suc k) g =
     (if gameOver g then Some g
      else (case tick draws g of
              None \<Rightarrow> None
            | Some g' \<Rightarrow> ticks draws k g'))"

section \<open>Notions used in the statements\<close>


text \<open>The cells of the board.\<close>

definition grid :: "Vector2i set" where
  "grid = {0..<COLS} \<times> {0..<ROWS}"

text \<open>
  The session as it is after the initialisation of lines 82 to 88 and after a
  restart: the snake of \<open>resetGame\<close>, the first interval, no points, in play.
  The food is wherever \<open>spawnFood\<close> put it.
\<close>

definition fresh_session :: "Game \<Rightarrow> bool" where
  "fresh_session g \<longleftrightarrow>
     snake g = resetGame \<and> moveDelay g = f32_round (12 / 100) \<and> score g = 0
     \<and> \<not> gameOver g"

text \<open>
  The snake after \<open>k\<close> ticks to the right from the centre: in play, heading
  \<open>(1, 0)\<close>, head at \<open>(20 + k, 15)\<close>, every other segment left of the head.
\<close>

definition on_row :: "nat \<Rightarrow> Game \<Rightarrow> bool" where
  "on_row k g \<longleftrightarrow>
     k \<le> 19 \<and> \<not> gameOver g \<and> dir (snake g) = (1, 0)
     \<and> (\<exists>t. body (snake g) = (20 + int k, 15) # t \<and> (\<forall>c\<in>set t. fst c < 20 + int k))"

text \<open>The food lies on a cell the head crosses on its way to the right wall.\<close>

definition food_ahead :: "Game \<Rightarrow> bool" where
  "food_ahead g \<longleftrightarrow> snd (food g) = 15 \<and> 21 \<le> fst (food g) \<and> fst (food g) \<le> 39"

text \<open>A generator that draws every cell of the board again and again.\<close>

definition fair :: "Draws \<Rightarrow> bool" where
  "fair draws \<longleftrightarrow> (\<forall>c i. \<not> out_of_bounds c \<longrightarrow> (\<exists>k\<ge>i. draws k = c))"

text \<open>
  A run of one session, step by step: a tick, which the loop fires only while the
  game is not over, or a key press. The last argument counts the ticks that took
  the eating rule, the food consumptions of the run.
\<close>

datatype Step = Tick | Press Key

fun play :: "Draws \<Rightarrow> Step list \<Rightarrow> Game \<Rightarrow> nat \<Rightarrow> (Game \<times> nat) option" where
  "play draws [] g n = Some (g, n)"
| "play draws (Press k # st) g n =
     (case handle_event draws (KeyPressed k) g of
        None \<Rightarrow> None
      | Some g' \<Rightarrow> play draws st g' n)"
| "play draws (Tick # st) g n =
     (if gameOver g then play draws st g n
      else (case advance g of
              None \<Rightarrow> None
            | Some (g3, h) \<Rightarrow>
                (case tick draws g of
                   None \<Rightarrow> None
                 | Some g' \<Rightarrow> play draws st g' (if eating g3 h then Suc n else n))))"

text \<open>The interval the specification gives after \<open>n\<close> consumptions.\<close>

definition interval_after :: "nat \<Rightarrow> real" where
  "interval_after n = max (3 / 100) (12 / 100 * (95 / 100) ^ n)"

text \<open>
  Line 133 as a function of the interval, and the interval the program holds
  after \<open>n\<close> consumptions: \<open>n\<close> such steps from \<open>0.12f\<close>.
\<close>

definition speed_up :: "real \<Rightarrow> real" where
  "speed_up d = max (f32_round (3 / 100)) (f32_round (d * f32_round (95 / 100)))"

primrec f32_interval :: "nat \<Rightarrow> real" where
  "f32_interval 0 = f32_round (12 / 100)"
| "f32_interval (Suc n) = speed_up (f32_interval n)"

text \<open>
  A check that runs \<open>k\<close> steps of line 133 from the interval \<open>d\<close> beside the
  exact product \<open>i\<close>, and compares the two after each step.
\<close>

fun close_from :: "real \<Rightarrow> real \<Rightarrow> nat \<Rightarrow> bool" where
  "close_from d i 0 = True"
| "close_from d i (Suc k) =
     (\<bar>d - max (3 / 100) i\<bar> \<le> 3 / 100000000
      \<and> close_from (speed_up d) (i * (95 / 100)) k)"

text \<open>
  The record of the specification, "decimal ASCII integer, no delimiter": the
  whole content is one decimal digit or more. \<open>spec_load\<close> is the \<open>load\<close> of
  the specification: the value of such a record, and 0 for a missing file and
  for every other content.
\<close>

definition spec_decimal :: "string \<Rightarrow> bool" where
  "spec_decimal c \<longleftrightarrow> c \<noteq> [] \<and> list_all is_digit c"

definition spec_load :: "string option \<Rightarrow> int" where
  "spec_load f =
     (case f of
        None \<Rightarrow> 0
      | Some c \<Rightarrow> if spec_decimal c then dec_val c else 0)"

text \<open>
  The content starts with the integer \<open>v\<close>: after white space and an optional
  sign comes a run of one digit or more that ends at the end of the content or
  before a character that is no digit, and \<open>v\<close> is its value with the sign,
  however large and whatever follows.
\<close>

definition leading_integer :: "string \<Rightarrow> int \<Rightarrow> bool" where
  "leading_integer c v \<longleftrightarrow>
     (\<exists>ws sg ds rest.
        c = ws @ sg @ ds @ rest
        \<and> (\<forall>x\<in>set ws. is_space x)
        \<and> (sg = [] \<or> sg = ''+'' \<or> sg = ''-'')
        \<and> ds \<noteq> [] \<and> (\<forall>x\<in>set ds. is_digit x)
        \<and> (rest = [] \<or> \<not> is_digit (hd rest))
        \<and> v = (if sg = ''-'' then - dec_val ds else dec_val ds))"

section \<open>Sample inputs\<close>

text \<open>
  A playing state with a given body, heading and food, whose interval is the
  value of \<open>0.12f\<close>, and a generator that always draws the origin; the examples
  below run the program on them.
\<close>

definition demo_game :: "Vector2i list \<Rightarrow> Vector2i \<Rightarrow> Vector2i \<Rightarrow> Game" where
  "demo_game b d f =
     \<lparr>snake = \<lparr>body = b, dir = d, grow = False\<rparr>, food = f,
      moveDelay = 16106127 / 134217728,
      acc_s = 0, gameOver = False, score = 0, highscore = 0, rng = 0, window_open = True,
      world = \<lparr>contents = None, writable = True, save_calls = []\<rparr>\<rparr>"

definition draws_zero :: Draws where
  "draws_zero k = (0, 0)"

text \<open>
  A playing state one step from the right wall with 30 points, and the state
  one frame of a fifth of a second later.
\<close>

definition last_cell_game :: Game where
  "last_cell_game = (demo_game [(39, 15)] (1, 0) (3, 3))\<lparr>score := 30\<rparr>"

definition wall_game :: Game where
  "wall_game =
     \<lparr>snake = \<lparr>body = [(40, 15)], dir = (1, 0), grow = False\<rparr>, food = (3, 3),
      moveDelay = 16106127 / 134217728, acc_s = 53687093 / 671088640, gameOver = True,
      score = 30, highscore = 30,
      rng = 0, window_open = True,
      world = \<lparr>contents = Some ''30'', writable = True, save_calls = [30]\<rparr>\<rparr>"

text \<open>A generator that goes through the cells of the board row by row, for ever.\<close>

definition draws_cycle :: Draws where
  "draws_cycle k = (int (k mod 40), int ((k div 40) mod 30))"

text \<open>
  The fresh session with the food in a corner, the same with the food on the
  cell in front of the head, and the states the two reach at the right wall.
\<close>

definition corner_start :: Game where
  "corner_start = demo_game [(20, 15)] (1, 0) (3, 3)"

definition corner_wall :: Game where
  "corner_wall = (demo_game [(40, 15)] (1, 0) (3, 3))\<lparr>gameOver := True\<rparr>"

definition ahead_start :: Game where
  "ahead_start = demo_game [(20, 15)] (1, 0) (21, 15)"

definition ahead_wall :: Game where
  "ahead_wall =
     (demo_game [(40, 15), (39, 15)] (1, 0) (0, 0))
       \<lparr>gameOver := True, score := 10, moveDelay := 15300820 / 134217728, rng := 1\<rparr>"

text \<open>The fresh session with the food in front of the head, and the state after one tick.\<close>

definition ahead_fed :: Game where
  "ahead_fed =
     (demo_game [(21, 15)] (1, 0) (0, 0))
       \<lparr>snake := \<lparr>body = [(21, 15)], dir = (1, 0), grow = True\<rparr>,
        score := 10, moveDelay := 15300820 / 134217728, rng := 1\<rparr>"

text \<open>
  States of the file: a saved score, no file, text that is no number, a number
  followed by text, and a number too large for an \<open>int\<close>.
\<close>

definition saved_150 :: World where
  "saved_150 = \<lparr>contents = Some ''150'', writable = True, save_calls = []\<rparr>"

definition no_file :: World where
  "no_file = \<lparr>contents = None, writable = True, save_calls = []\<rparr>"

definition garbled :: World where
  "garbled = \<lparr>contents = Some ''abc'', writable = True, save_calls = []\<rparr>"

definition trailing_text :: World where
  "trailing_text = \<lparr>contents = Some ''12abc'', writable = True, save_calls = []\<rparr>"

definition too_large :: World where
  "too_large = \<lparr>contents = Some ''99999999999'', writable = True, save_calls = []\<rparr>"

section \<open>The invariant of the loop\<close>

text \<open>
  What holds in every state the loop reaches: the body is not empty, the
  heading is one of the four unit steps, the segments behind the head are
  distinct cells of the board, the head is at most one step outside it (and
  inside it, on a free cell, while the game is not over), and the score is ten
  times the number of segments gained. So no coordinate and no score comes
  near the limits of a 32-bit \<open>int\<close>.
\<close>

definition unit_dir :: "Vector2i \<Rightarrow> bool" where
  "unit_dir d \<longleftrightarrow> d = (1, 0) \<or> d = (-1, 0) \<or> d = (0, 1) \<or> d = (0, -1)"

definition near_board :: "Vector2i \<Rightarrow> bool" where
  "near_board c \<longleftrightarrow> -1 \<le> fst c \<and> fst c \<le> COLS \<and> -1 \<le> snd c \<and> snd c \<le> ROWS"

definition safe :: "Game \<Rightarrow> bool" where
  "safe g \<longleftrightarrow>
     (\<exists>h t. body (snake g) = h # t \<and> near_board h \<and> distinct t
        \<and> (\<forall>c\<in>set t. \<not> out_of_bounds c)
        \<and> (\<not> gameOver g \<longrightarrow> \<not> out_of_bounds h \<and> h \<notin> set t))
     \<and> unit_dir (dir (snake g))
     \<and> score g = 10 * (int (length (body (snake g))) - 1 + (if grow (snake g) then 1 else 0))"

section \<open>Single-precision rounding\<close>

lemma binade_order:
  assumes "(2::real) powi a \<le> x" and "x < 2 powi b"
  shows "a < b"
proof (rule ccontr)
  assume "\<not> a < b"
  then have "b \<le> a" by simp
  then have "(2::real) powi b \<le> 2 powi a" by (rule power_int_increasing) simp
  with assms show False by simp
qed

lemma exponent_down_correct:
  assumes "2 powi e \<le> x" and "x < 2 powi (e + 1)" and "e \<le> s" and "s - e \<le> int n"
  shows "exponent_down x s n = e"
  using assms(3,4)
proof (induction n arbitrary: s)
  case 0
  then show ?case by simp
next
  case (Suc n)
  show ?case
  proof (cases "2 powi s \<le> x")
    case True
    from binade_order [OF True assms(2)] Suc.prems(1) have "s = e" by simp
    with True show ?thesis by simp
  next
    case False
    then have "x < 2 powi s" by simp
    from binade_order [OF assms(1) this] have "e \<le> s - 1" by simp
    moreover from Suc.prems(2) have "s - 1 - e \<le> int n" by simp
    ultimately have "exponent_down x (s - 1) n = e" by (rule Suc.IH)
    with False show ?thesis by simp
  qed
qed

text \<open>Rounding a number below 1 whose exponent is known.\<close>

lemma f32_round_binade:
  assumes "2 powi e \<le> x" and "x < 2 powi (e + 1)" and "- 126 \<le> e" and "e \<le> - 1"
  shows "f32_round x = of_int (round_even (x / 2 powi (e - 23))) * 2 powi (e - 23)"
proof -
  have "(0::real) < 2 powi e" by simp
  then have pos: "0 < x" using assms(1) by (rule less_le_trans)
  have "(2::real) powi (e + 1) \<le> 2 powi 0"
    using assms(4) by (intro power_int_increasing) simp_all
  with assms(2) have "x < 1" by simp
  with pos have "f32_exponent x = exponent_down x (- 1) 125"
    by (simp add: f32_exponent_def)
  also have "\<dots> = e"
    using assms by (intro exponent_down_correct) simp_all
  finally show ?thesis by (simp add: f32_round_def Let_def)
qed

lemma f32_round_half:
  "1 / 2 \<le> x \<Longrightarrow> x < 1 \<Longrightarrow> f32_round x = of_int (round_even (x * 16777216)) / 16777216"
  using f32_round_binade [of "- 1" x] by simp

lemma f32_round_16th:
  "1 / 16 \<le> x \<Longrightarrow> x < 1 / 8 \<Longrightarrow> f32_round x = of_int (round_even (x * 134217728)) / 134217728"
  using f32_round_binade [of "- 4" x] by simp

lemma f32_round_32nd:
  "1 / 32 \<le> x \<Longrightarrow> x < 1 / 16 \<Longrightarrow> f32_round x = of_int (round_even (x * 268435456)) / 268435456"
  using f32_round_binade [of "- 5" x] by simp

lemma f32_round_64th:
  "1 / 64 \<le> x \<Longrightarrow> x < 1 / 32 \<Longrightarrow> f32_round x = of_int (round_even (x * 536870912)) / 536870912"
  using f32_round_binade [of "- 6" x] by simp

lemmas f32_round_rules = f32_round_half f32_round_16th f32_round_32nd f32_round_64th

text \<open>The three literals of the program, \<open>0.12f\<close>, \<open>0.95f\<close> and \<open>0.03f\<close>.\<close>

lemma f32_0_12: "f32_round (12 / 100) = 16106127 / 134217728"
  by (simp add: f32_round_rules round_even_def Let_def)

lemma f32_0_95: "f32_round (95 / 100) = 15938355 / 16777216"
  by (simp add: f32_round_rules round_even_def Let_def)

lemma f32_0_03: "f32_round (3 / 100) = 16106127 / 536870912"
  by (simp add: f32_round_rules round_even_def Let_def)

text \<open>The same with the fractions in lowest terms, as the simplifier writes them.\<close>

lemma f32_3_25: "f32_round (3 / 25) = 16106127 / 134217728"
  using f32_0_12 by simp

lemma f32_19_20: "f32_round (19 / 20) = 15938355 / 16777216"
  using f32_0_95 by simp

lemmas f32_eval = f32_0_95 f32_19_20 f32_0_03 f32_round_rules round_even_def Let_def

section \<open>Properties of the snake\<close>

lemma hitsSelf_loop_iff:
  "hitsSelf_loop b i \<longleftrightarrow> (\<exists>j. i \<le> j \<and> j < length b \<and> b ! j = hd b)"
proof (induction b i rule: hitsSelf_loop.induct)
  case (1 b i)
  show ?case
  proof (cases "i < length b")
    case False
    then show ?thesis by (subst hitsSelf_loop.simps) auto
  next
    case True
    show ?thesis
    proof (cases "b ! i = hd b")
      case hit: True
      with True show ?thesis by (subst hitsSelf_loop.simps) auto
    next
      case miss: False
      have "hitsSelf_loop b i = hitsSelf_loop b (Suc i)"
        using True miss by (subst hitsSelf_loop.simps) simp
      also have "\<dots> \<longleftrightarrow> (\<exists>j. Suc i \<le> j \<and> j < length b \<and> b ! j = hd b)"
        using "1.IH" True miss by simp
      also have "\<dots> \<longleftrightarrow> (\<exists>j. i \<le> j \<and> j < length b \<and> b ! j = hd b)"
      proof
        assume "\<exists>j. Suc i \<le> j \<and> j < length b \<and> b ! j = hd b"
        then show "\<exists>j. i \<le> j \<and> j < length b \<and> b ! j = hd b"
          by (meson Suc_leD)
      next
        assume "\<exists>j. i \<le> j \<and> j < length b \<and> b ! j = hd b"
        then obtain j where j: "i \<le> j" "j < length b" "b ! j = hd b" by blast
        with miss have "j \<noteq> i" by auto
        with j show "\<exists>j. Suc i \<le> j \<and> j < length b \<and> b ! j = hd b"
          by (intro exI [of _ j]) simp
      qed
      finally show ?thesis .
    qed
  qed
qed

lemma occupies_loop_iff: "occupies_loop bs p \<longleftrightarrow> p \<in> set bs"
  by (induction bs) auto

lemma occupies_iff: "occupies s p \<longleftrightarrow> p \<in> set (body s)"
  by (simp add: occupies_def occupies_loop_iff)

text \<open>
  Claim C6. \<open>Snake::move\<close> on a snake with at least one segment: with the growth
  flag clear the body keeps its length, with the flag set the body gets one
  segment longer and the flag is cleared; in both cases the new front of the
  body is the old head plus the heading, the heading is kept and the segments
  behind the new head are the old ones in order (all of them after a growth
  move, all but the last otherwise).
\<close>

theorem move_length_and_head:
  assumes "body s \<noteq> []"
  shows "\<exists>s'. move s = Some s'
           \<and> hd (body s') = vadd (hd (body s)) (dir s)
           \<and> dir s' = dir s
           \<and> grow s' = False
           \<and> (if grow s
              then length (body s') = length (body s) + 1 \<and> tl (body s') = body s
              else length (body s') = length (body s) \<and> tl (body s') = butlast (body s))"
proof -
  from assms obtain h t where b: "body s = h # t" by (cases "body s") auto
  show ?thesis
    by (simp add: move_def nextHead_def push_front_def pop_back_def b Let_def)
qed

theorem move_length_and_head_witness:
  "body \<lparr>body = [(2, 5), (1, 5)], dir = (1, 0), grow = True\<rparr> \<noteq> []
   \<and> move \<lparr>body = [(2, 5), (1, 5)], dir = (1, 0), grow = True\<rparr>
       = Some \<lparr>body = [(3, 5), (2, 5), (1, 5)], dir = (1, 0), grow = False\<rparr>"
proof -
  let ?s = "\<lparr>body = [(2, 5), (1, 5)], dir = (1, 0), grow = True\<rparr> :: Snake"
  have ne: "body ?s \<noteq> []" by simp
  from move_length_and_head [OF ne] obtain s' where
    "move ?s = Some s'" by blast
  then show ?thesis
    by (simp add: move_def nextHead_def push_front_def pop_back_def vadd_def Let_def)
qed

lemma hitsSelf_Cons: "body s = h # t \<Longrightarrow> hitsSelf s \<longleftrightarrow> h \<in> set t"
proof -
  assume b: "body s = h # t"
  have "hitsSelf s \<longleftrightarrow> (\<exists>j. 1 \<le> j \<and> j < length (h # t) \<and> (h # t) ! j = h)"
    by (simp add: hitsSelf_def hitsSelf_loop_iff b)
  also have "\<dots> \<longleftrightarrow> (\<exists>i. i < length t \<and> t ! i = h)"
  proof
    assume "\<exists>j. 1 \<le> j \<and> j < length (h # t) \<and> (h # t) ! j = h"
    then obtain j where j: "1 \<le> j" "j < length (h # t)" "(h # t) ! j = h" by blast
    then obtain i where "j = Suc i" by (cases j) auto
    with j show "\<exists>i. i < length t \<and> t ! i = h" by auto
  next
    assume "\<exists>i. i < length t \<and> t ! i = h"
    then obtain i where "i < length t" "t ! i = h" by blast
    then show "\<exists>j. 1 \<le> j \<and> j < length (h # t) \<and> (h # t) ! j = h"
      by (intro exI [of _ "Suc i"]) simp
  qed
  also have "\<dots> \<longleftrightarrow> h \<in> set t"
    by (auto simp: in_set_conv_nth)
  finally show ?thesis .
qed

lemma hitsSelf_Nil: "body s = [] \<Longrightarrow> \<not> hitsSelf s"
  by (simp add: hitsSelf_def hitsSelf_loop_iff)

lemma last_notin_butlast: "distinct xs \<Longrightarrow> xs \<noteq> [] \<Longrightarrow> last xs \<notin> set (butlast xs)"
  by (induction xs) (auto dest: in_set_butlastD)

lemma move_Cons:
  "body s = h # t \<Longrightarrow>
   move s = Some (if grow s then s\<lparr>body := vadd h (dir s) # h # t, grow := False\<rparr>
                  else s\<lparr>body := vadd h (dir s) # butlast (h # t)\<rparr>)"
  by (simp add: move_def nextHead_def push_front_def pop_back_def Let_def)

text \<open>
  Claim C7. After \<open>Snake::move\<close>, \<open>hitsSelf\<close> is true exactly when some segment
  at index 1 or more equals the head at index 0. When the body had no repeated
  cell, the move did not grow and the new head is the cell of the old last
  segment, \<open>hitsSelf\<close> is false: that segment has been removed.
\<close>

theorem hitsSelf_after_move:
  assumes "move s = Some s'"
  shows "(hitsSelf s' \<longleftrightarrow> (\<exists>i. 1 \<le> i \<and> i < length (body s') \<and> body s' ! i = body s' ! 0))
       \<and> (distinct (body s) \<and> \<not> grow s \<and> body s' ! 0 = last (body s) \<longrightarrow> \<not> hitsSelf s')"
proof -
  from assms obtain h t where b: "body s = h # t"
    by (cases "body s") (auto simp: move_def nextHead_def)
  from assms have ne: "body s' \<noteq> []"
    by (auto simp: move_Cons [OF b] split: if_splits)
  then have hd0: "hd (body s') = body s' ! 0" by (simp add: hd_conv_nth)
  have first: "hitsSelf s' \<longleftrightarrow> (\<exists>i. 1 \<le> i \<and> i < length (body s') \<and> body s' ! i = body s' ! 0)"
    by (simp add: hitsSelf_def hitsSelf_loop_iff hd0)
  have second: "\<not> hitsSelf s'"
    if d: "distinct (body s)" and g: "\<not> grow s" and l: "body s' ! 0 = last (body s)"
  proof -
    from assms g have s': "body s' = vadd h (dir s) # butlast (h # t)"
      by (auto simp: move_Cons [OF b])
    with l have "vadd h (dir s) = last (h # t)" by (simp add: b)
    moreover have "last (h # t) \<notin> set (butlast (h # t))"
      using d b last_notin_butlast [of "h # t"] by simp
    ultimately show ?thesis
      by (simp add: hitsSelf_Cons [OF s'])
  qed
  from first second show ?thesis by blast
qed

theorem hitsSelf_after_move_witness:
  "move \<lparr>body = [(1, 0), (1, 1), (0, 1), (0, 0)], dir = (-1, 0), grow = False\<rparr>
     = Some \<lparr>body = [(0, 0), (1, 0), (1, 1), (0, 1)], dir = (-1, 0), grow = False\<rparr>
   \<and> \<not> hitsSelf \<lparr>body = [(0, 0), (1, 0), (1, 1), (0, 1)], dir = (-1, 0), grow = False\<rparr>
   \<and> hitsSelf \<lparr>body = [(1, 1), (1, 0), (1, 1), (0, 1)], dir = (0, 1), grow = False\<rparr>"
proof -
  let ?s = "\<lparr>body = [(1, 0), (1, 1), (0, 1), (0, 0)], dir = (-1, 0), grow = False\<rparr> :: Snake"
  let ?s' = "\<lparr>body = [(0, 0), (1, 0), (1, 1), (0, 1)], dir = (-1, 0), grow = False\<rparr> :: Snake"
  let ?t = "\<lparr>body = [(1, 0), (1, 1), (0, 1)], dir = (0, 1), grow = False\<rparr> :: Snake"
  let ?t' = "\<lparr>body = [(1, 1), (1, 0), (1, 1)], dir = (0, 1), grow = False\<rparr> :: Snake"
  have m: "move ?s = Some ?s'"
    by (simp add: move_def nextHead_def push_front_def pop_back_def vadd_def Let_def)
  have imp: "distinct (body ?s) \<and> \<not> grow ?s \<and> body ?s' ! 0 = last (body ?s) \<longrightarrow> \<not> hitsSelf ?s'"
    using hitsSelf_after_move [OF m] by (rule conjunct2)
  have pre: "distinct (body ?s) \<and> \<not> grow ?s \<and> body ?s' ! 0 = last (body ?s)"
    by simp
  from imp pre have "\<not> hitsSelf ?s'" by (rule mp)
  moreover have "hitsSelf \<lparr>body = [(1, 1), (1, 0), (1, 1), (0, 1)], dir = (0, 1), grow = False\<rparr>"
    by (simp add: hitsSelf_Cons [of _ "(1, 1)" "[(1, 0), (1, 1), (0, 1)]"])
  ultimately show ?thesis using m by simp
qed

lemma redirect_eq:
  "redirect k s =
     (case request_of k of
        None \<Rightarrow> s
      | Some r \<Rightarrow> if r = vneg (dir s) then s else s\<lparr>dir := r\<rparr>)"
  by (cases k; cases "dir s") (auto simp: redirect_def steer_def vneg_def Let_def)

lemma redirect_fields: "body (redirect k s) = body s" "grow (redirect k s) = grow s"
  by (auto simp: redirect_eq split: option.splits)

section \<open>Properties of the game loop\<close>

text \<open>
  Claim C5. While the game is not over, a key that asks for the heading \<open>r\<close>
  leaves everything as it is when \<open>r\<close> is the exact reverse of the current
  heading, and otherwise sets the heading to \<open>r\<close>, for every current heading;
  nothing else in the state changes.
\<close>

theorem heading_change:
  assumes "\<not> gameOver g" and "request_of k = Some r"
  shows "handle_event draws (KeyPressed k) g =
           Some (g\<lparr>snake := (snake g)\<lparr>dir := (if r = vneg (dir (snake g)) then dir (snake g) else r)\<rparr>\<rparr>)"
proof -
  from assms(2) have "k \<noteq> R" by auto
  moreover have "redirect k (snake g) =
      (snake g)\<lparr>dir := (if r = vneg (dir (snake g)) then dir (snake g) else r)\<rparr>"
    using assms(2) by (simp add: redirect_eq)
  ultimately show ?thesis
    using assms(1) by (simp add: handle_event_def Let_def)
qed

theorem heading_change_witness:
  "\<not> gameOver (demo_game [(20, 15)] (1, 0) (3, 3))
   \<and> request_of Left = Some (-1, 0) \<and> request_of Up = Some (0, -1)
   \<and> handle_event draws_zero (KeyPressed Left) (demo_game [(20, 15)] (1, 0) (3, 3))
       = Some (demo_game [(20, 15)] (1, 0) (3, 3))
   \<and> handle_event draws_zero (KeyPressed Up) (demo_game [(20, 15)] (1, 0) (3, 3))
       = Some (demo_game [(20, 15)] (0, -1) (3, 3))"
proof -
  let ?g = "demo_game [(20, 15)] (1, 0) (3, 3)"
  have ng: "\<not> gameOver ?g" by (simp add: demo_game_def)
  have l: "request_of Left = Some (-1, 0)" and u: "request_of Up = Some (0, -1)" by simp_all
  show ?thesis
    using ng heading_change [OF ng l, of draws_zero] heading_change [OF ng u, of draws_zero]
    by (simp add: demo_game_def vneg_def)
qed

text \<open>
  Claim C9. With the heading \<open>(1, 0)\<close>, the key Up followed by the key Left in
  the same pass of the event loop, hence with no tick in between, are both
  accepted: the first turns the heading to \<open>(0, -1)\<close>, the second to
  \<open>(-1, 0)\<close>, the reverse of the heading before the two keys. The test of
  each key looks at the heading of that moment only.
\<close>

theorem double_turn_reverses:
  assumes "\<not> gameOver g" and "dir (snake g) = (1, 0)"
  shows "\<exists>g1 g2. handle_event draws (KeyPressed Up) g = Some g1
           \<and> dir (snake g1) = (0, -1)
           \<and> handle_event draws (KeyPressed Left) g1 = Some g2
           \<and> dir (snake g2) = (-1, 0)
           \<and> dir (snake g2) = vneg (dir (snake g))
           \<and> poll_events draws [KeyPressed Up, KeyPressed Left] g = Some g2
           \<and> body (snake g2) = body (snake g) \<and> \<not> gameOver g2"
  using assms
  by (simp add: handle_event_def redirect_eq vneg_def Let_def)

theorem double_turn_reverses_witness:
  "\<not> gameOver (demo_game [(20, 15), (19, 15), (18, 15)] (1, 0) (3, 3))
   \<and> poll_events draws_zero [KeyPressed Up, KeyPressed Left]
         (demo_game [(20, 15), (19, 15), (18, 15)] (1, 0) (3, 3))
       = Some (demo_game [(20, 15), (19, 15), (18, 15)] (-1, 0) (3, 3))"
proof -
  let ?g = "demo_game [(20, 15), (19, 15), (18, 15)] (1, 0) (3, 3)"
  have ng: "\<not> gameOver ?g" and d: "dir (snake ?g) = (1, 0)" by (simp_all add: demo_game_def)
  from double_turn_reverses [OF ng d, of draws_zero] obtain g2 where
    "poll_events draws_zero [KeyPressed Up, KeyPressed Left] ?g = Some g2" by blast
  then show ?thesis
    using ng by (simp add: handle_event_def redirect_eq vneg_def Let_def demo_game_def)
qed

lemma advance_Cons:
  assumes "body (snake g) = h # t"
  shows "\<exists>sn. move (snake g) = Some sn \<and> hd (body sn) = vadd h (dir (snake g))
          \<and> body sn \<noteq> [] \<and> grow sn = False \<and> dir sn = dir (snake g)
          \<and> advance g =
              Some (g\<lparr>snake := sn,
                      gameOver := gameOver g \<or> out_of_bounds (vadd h (dir (snake g))) \<or> hitsSelf sn\<rparr>,
                    vadd h (dir (snake g)))"
  by (cases "gameOver g") (simp_all add: advance_def move_Cons [OF assms] Let_def)

text \<open>
  Claim C10. When the food is \<open>(-1, -1)\<close>, a tick returns and never takes the
  eating rule: a head with a negative coordinate has set \<open>gameOver\<close> before
  the rule is tested. The score, the interval, the food and the generator are
  unchanged, and the growth flag is clear after the tick.
\<close>

theorem no_eating_without_food:
  assumes "body (snake g) \<noteq> []" and "food g = (-1, -1)"
  shows "\<exists>g' h. advance g = Some (g', h)
           \<and> (fst h < 0 \<or> snd h < 0 \<longrightarrow> gameOver g')
           \<and> \<not> eating g' h
           \<and> tick draws g = Some g'
           \<and> score g' = score g \<and> moveDelay g' = moveDelay g
           \<and> grow (snake g') = False \<and> food g' = (-1, -1) \<and> rng g' = rng g"
proof -
  from assms(1) obtain h t where b: "body (snake g) = h # t"
    by (cases "body (snake g)") auto
  from advance_Cons [OF b] obtain sn where
    sn: "grow sn = False"
    and adv: "advance g =
              Some (g\<lparr>snake := sn,
                      gameOver := gameOver g \<or> out_of_bounds (vadd h (dir (snake g))) \<or> hitsSelf sn\<rparr>,
                    vadd h (dir (snake g)))"
    by blast
  let ?h = "vadd h (dir (snake g))"
  let ?g' = "g\<lparr>snake := sn, gameOver := gameOver g \<or> out_of_bounds ?h \<or> hitsSelf sn\<rparr>"
  have neg: "fst ?h < 0 \<or> snd ?h < 0 \<longrightarrow> gameOver ?g'"
    by (auto simp: out_of_bounds_def)
  have ne: "\<not> eating ?g' ?h"
    using assms(2) by (auto simp: eating_def out_of_bounds_def)
  have "tick draws g = Some ?g'"
    using ne by (simp add: tick_def adv)
  with adv neg ne sn assms(2) show ?thesis by simp
qed

theorem no_eating_without_food_witness:
  "body (snake (demo_game [(0, 0)] (-1, 0) (-1, -1))) \<noteq> []
   \<and> food (demo_game [(0, 0)] (-1, 0) (-1, -1)) = (-1, -1)
   \<and> tick draws_zero (demo_game [(0, 0)] (-1, 0) (-1, -1))
       = Some ((demo_game [(-1, 0)] (-1, 0) (-1, -1))\<lparr>gameOver := True\<rparr>)"
proof -
  let ?g = "demo_game [(0, 0)] (-1, 0) (-1, -1)"
  have b: "body (snake ?g) \<noteq> []" and f: "food ?g = (-1, -1)"
    by (simp_all add: demo_game_def)
  from no_eating_without_food [OF b f, of draws_zero] obtain g' h where
    a: "advance ?g = Some (g', h)" and t: "tick draws_zero ?g = Some g'" by blast
  have "advance ?g = Some ((demo_game [(-1, 0)] (-1, 0) (-1, -1))\<lparr>gameOver := True\<rparr>, (-1, 0))"
    by (simp add: advance_def move_def nextHead_def push_front_def pop_back_def vadd_def
        out_of_bounds_def demo_game_def Let_def)
  with a have "g' = (demo_game [(-1, 0)] (-1, 0) (-1, -1))\<lparr>gameOver := True\<rparr>"
    by (metis option.inject prod.inject)
  with t have "tick draws_zero ?g = Some ((demo_game [(-1, 0)] (-1, 0) (-1, -1))\<lparr>gameOver := True\<rparr>)"
    by simp
  with b f show ?thesis by blast
qed

section \<open>Properties of food placement\<close>



lemma spawnFood_loop_returns:
  assumes "\<not> occupies s (draws k)" and "i \<le> k"
  shows "\<exists>p j. spawnFood_loop s draws i = Some (p, j)"
  using assms
proof (induction "k - i" arbitrary: i)
  case 0
  then have "i = k" by simp
  with 0 show ?case by (subst spawnFood_loop.simps) (simp add: Let_def)
next
  case (Suc n)
  show ?case
  proof (cases "occupies s (draws i)")
    case True
    from Suc have "n = k - Suc i" "Suc i \<le> k" by auto
    with Suc obtain p j where "spawnFood_loop s draws (Suc i) = Some (p, j)" by blast
    with True show ?thesis by (subst spawnFood_loop.simps) (simp add: Let_def)
  next
    case False
    then show ?thesis by (subst spawnFood_loop.simps) (simp add: Let_def)
  qed
qed

lemma card_grid: "card grid = 1200"
  by (simp add: grid_def COLS_def ROWS_def)

lemma in_grid_iff: "p \<in> grid \<longleftrightarrow> \<not> out_of_bounds p"
  by (cases p) (auto simp: grid_def out_of_bounds_def)

lemma free_cell_exists:
  assumes "int (length (body s)) < COLS * ROWS"
  shows "\<exists>c. \<not> out_of_bounds c \<and> \<not> occupies s c"
proof -
  have "card (set (body s)) \<le> length (body s)" by (rule card_length)
  also have "\<dots> < card grid" using assms by (simp add: card_grid COLS_def ROWS_def)
  finally have "\<not> grid \<subseteq> set (body s)"
    using card_mono [of "set (body s)" grid] by auto
  then obtain c where "c \<in> grid" "c \<notin> set (body s)" by blast
  then have "\<not> out_of_bounds c \<and> \<not> occupies s c"
    by (simp add: in_grid_iff occupies_iff)
  then show ?thesis ..
qed







section \<open>Properties of the high score\<close>

lemma handle_event_playing:
  assumes "\<not> gameOver g"
  shows "\<exists>g1. handle_event draws ev g = Some g1 \<and> \<not> gameOver g1
          \<and> score g1 = score g \<and> highscore g1 = highscore g \<and> world g1 = world g
          \<and> food g1 = food g \<and> moveDelay g1 = moveDelay g \<and> rng g1 = rng g
          \<and> body (snake g1) = body (snake g) \<and> grow (snake g1) = grow (snake g)"
  using assms
  by (cases ev) (simp_all add: handle_event_def Let_def redirect_fields)

lemma poll_events_playing:
  assumes "\<not> gameOver g"
  shows "\<exists>g1. poll_events draws evs g = Some g1 \<and> \<not> gameOver g1
          \<and> score g1 = score g \<and> highscore g1 = highscore g \<and> world g1 = world g
          \<and> food g1 = food g \<and> moveDelay g1 = moveDelay g \<and> rng g1 = rng g
          \<and> body (snake g1) = body (snake g) \<and> grow (snake g1) = grow (snake g)"
  using assms
proof (induction evs arbitrary: g)
  case Nil
  then show ?case by simp
next
  case (Cons ev evs)
  from handle_event_playing [OF Cons.prems, of draws ev] obtain g1 where
    g1: "handle_event draws ev g = Some g1" "\<not> gameOver g1"
      "score g1 = score g" "highscore g1 = highscore g" "world g1 = world g"
      "food g1 = food g" "moveDelay g1 = moveDelay g" "rng g1 = rng g"
      "body (snake g1) = body (snake g)" "grow (snake g1) = grow (snake g)"
    by blast
  from Cons.IH [OF g1(2)] g1 show ?case by simp
qed

lemma eat_keeps:
  "eat draws g = Some g' \<Longrightarrow> highscore g' = highscore g \<and> world g' = world g"
  by (auto simp: eat_def Let_def split: option.splits)

lemma advance_keeps:
  "advance g = Some (g', h) \<Longrightarrow>
     highscore g' = highscore g \<and> world g' = world g \<and> score g' = score g
     \<and> moveDelay g' = moveDelay g \<and> food g' = food g \<and> rng g' = rng g"
  by (auto simp: advance_def Let_def split: option.splits list.splits)

lemma tick_keeps:
  assumes "tick draws g = Some g'"
  shows "highscore g' = highscore g \<and> world g' = world g"
proof -
  from assms obtain g3 h where a: "advance g = Some (g3, h)"
    by (auto simp: tick_def split: option.splits)
  show ?thesis
  proof (cases "eating g3 h")
    case True
    with assms a have "eat draws g3 = Some g'" by (simp add: tick_def)
    from eat_keeps [OF this] advance_keeps [OF a] show ?thesis by simp
  next
    case False
    with assms a have "g' = g3" by (simp add: tick_def)
    with advance_keeps [OF a] show ?thesis by simp
  qed
qed

lemma save_calls_saveHighscore: "save_calls (saveHighscore s w) = save_calls w @ [s]"
  by (simp add: saveHighscore_def Let_def)

lemma handle_event_over:
  assumes "gameOver g" and "ev \<noteq> KeyPressed R"
  shows "\<exists>g1. handle_event draws ev g = Some g1 \<and> gameOver g1
          \<and> score g1 = score g \<and> highscore g1 = highscore g \<and> world g1 = world g"
  using assms
  by (cases ev) (simp_all add: handle_event_def Let_def)

lemma poll_events_over:
  assumes "gameOver g" and "KeyPressed R \<notin> set evs"
  shows "\<exists>g1. poll_events draws evs g = Some g1 \<and> gameOver g1
          \<and> score g1 = score g \<and> highscore g1 = highscore g \<and> world g1 = world g"
  using assms
proof (induction evs arbitrary: g)
  case Nil
  then show ?case by simp
next
  case (Cons ev evs)
  then have "ev \<noteq> KeyPressed R" and rest: "KeyPressed R \<notin> set evs" by auto
  from handle_event_over [OF Cons.prems(1) this(1), of draws] obtain g1 where
    g1: "handle_event draws ev g = Some g1" "gameOver g1"
      "score g1 = score g" "highscore g1 = highscore g" "world g1 = world g"
    by blast
  from Cons.IH [OF g1(2) rest] g1 show ?case by simp
qed

lemma frame_over:
  assumes "gameOver g" and "score g \<le> highscore g" and "KeyPressed R \<notin> set (fst inp)"
  shows "\<exists>g'. frame draws inp g = Some g' \<and> gameOver g'
          \<and> score g' = score g \<and> highscore g' = highscore g \<and> world g' = world g"
proof -
  from poll_events_over [OF assms(1,3), of draws] obtain g1 where
    g1: "poll_events draws (fst inp) g = Some g1" "gameOver g1"
      "score g1 = score g" "highscore g1 = highscore g" "world g1 = world g"
    by blast
  with assms(2) show ?thesis
    by (simp add: frame_def Let_def record_highscore_def)
qed

lemma frames_over:
  assumes "gameOver g" and "score g \<le> highscore g"
    and "\<forall>i\<in>set inps. KeyPressed R \<notin> set (fst i)"
  shows "\<exists>g'. frames draws inps g = Some g' \<and> gameOver g'
          \<and> score g' = score g \<and> highscore g' = highscore g \<and> world g' = world g"
  using assms
proof (induction inps arbitrary: g)
  case Nil
  then show ?case by simp
next
  case (Cons inp inps)
  show ?case
  proof (cases "window_open g")
    case False
    with Cons.prems show ?thesis by simp
  next
    case True
    from Cons.prems have "KeyPressed R \<notin> set (fst inp)" by simp
    from frame_over [OF Cons.prems(1,2) this, of draws] obtain g1 where
      g1: "frame draws inp g = Some g1" "gameOver g1"
        "score g1 = score g" "highscore g1 = highscore g" "world g1 = world g"
      by blast
    from Cons.prems g1 have "score g1 \<le> highscore g1"
      and "\<forall>i\<in>set inps. KeyPressed R \<notin> set (fst i)" by simp_all
    from Cons.IH [OF g1(2) this] g1 True show ?thesis by simp
  qed
qed

text \<open>
  Claim C3. On a frame that starts in play and ends in game over, the high
  score is saved once, with the final score, when that score is greater than
  the high score held so far, and the high score in memory becomes that score;
  otherwise nothing is saved and the high score is kept. In the frames that
  follow, as long as the key R is not pressed, the game stays over and
  \<open>saveHighscore\<close> is not called again.
\<close>

theorem highscore_saved_once:
  assumes "\<not> gameOver g" and "frame draws inp g = Some g'" and "gameOver g'"
  shows "(if score g' > highscore g
          then highscore g' = score g'
             \<and> world g' = saveHighscore (score g') (world g)
             \<and> save_calls (world g') = save_calls (world g) @ [score g']
          else highscore g' = highscore g \<and> world g' = world g)
       \<and> (\<forall>inps. (\<forall>i\<in>set inps. KeyPressed R \<notin> set (fst i)) \<longrightarrow>
            (\<exists>g''. frames draws inps g' = Some g'' \<and> gameOver g''
               \<and> score g'' = score g' \<and> highscore g'' = highscore g'
               \<and> world g'' = world g'))"
proof -
  from poll_events_playing [OF assms(1), of draws "fst inp"] obtain g1 where
    g1: "poll_events draws (fst inp) g = Some g1" "\<not> gameOver g1"
      "highscore g1 = highscore g" "world g1 = world g"
    by blast
  let ?g2 = "g1\<lparr>acc_s := acc_s g1 + snd inp\<rparr>"
  let ?fire = "\<not> gameOver ?g2 \<and> acc_s ?g2 \<ge> moveDelay ?g2"
  let ?r = "if ?fire then tick draws (?g2\<lparr>acc_s := acc_s ?g2 - moveDelay ?g2\<rparr>) else Some ?g2"
  from assms(2) g1(1) obtain g3 where g3: "?r = Some g3" and g': "g' = record_highscore g3"
    by (auto simp: frame_def Let_def split: option.splits)
  have keep: "highscore g3 = highscore g \<and> world g3 = world g"
  proof (cases ?fire)
    case True
    with g3 have "tick draws (?g2\<lparr>acc_s := acc_s ?g2 - moveDelay ?g2\<rparr>) = Some g3" by simp
    from tick_keeps [OF this] g1 show ?thesis by simp
  next
    case False
    with g3 g1 show ?thesis by auto
  qed
  from assms(3) g' have over: "gameOver g3"
    by (auto simp: record_highscore_def Let_def split: if_splits)
  have sc: "score g' = score g3"
    by (simp add: g' record_highscore_def Let_def)
  have first: "if score g' > highscore g
          then highscore g' = score g'
             \<and> world g' = saveHighscore (score g') (world g)
             \<and> save_calls (world g') = save_calls (world g) @ [score g']
          else highscore g' = highscore g \<and> world g' = world g"
    using over keep
    by (simp add: g' record_highscore_def Let_def save_calls_saveHighscore)
  have le: "score g' \<le> highscore g'"
    using over by (simp add: g' record_highscore_def Let_def)
  have "\<exists>g''. frames draws inps g' = Some g'' \<and> gameOver g''
               \<and> score g'' = score g' \<and> highscore g'' = highscore g'
               \<and> world g'' = world g'"
    if "\<forall>i\<in>set inps. KeyPressed R \<notin> set (fst i)" for inps
    using frames_over [OF assms(3) le that] .
  with first show ?thesis by blast
qed

lemma frame_last_cell: "frame draws_zero ([], 1 / 5) last_cell_game = Some wall_game"
  by code_simp

theorem highscore_saved_once_witness:
  "\<not> gameOver last_cell_game
   \<and> frame draws_zero ([], 1 / 5) last_cell_game = Some wall_game
   \<and> gameOver wall_game
   \<and> score wall_game > highscore last_cell_game
   \<and> highscore wall_game = score wall_game
   \<and> save_calls (world wall_game) = save_calls (world last_cell_game) @ [score wall_game]
   \<and> (\<exists>g''. frames draws_zero [([KeyPressed Up], 1 / 5), ([Closed], 1 / 5)] wall_game = Some g''
          \<and> gameOver g'' \<and> world g'' = world wall_game)"
proof -
  have ng: "\<not> gameOver last_cell_game"
    by (simp add: last_cell_game_def demo_game_def)
  have go: "gameOver wall_game" by (simp add: wall_game_def)
  have gt: "score wall_game > highscore last_cell_game"
    by (simp add: wall_game_def last_cell_game_def demo_game_def)
  note th = highscore_saved_once [OF ng frame_last_cell go]
  from th gt have a: "highscore wall_game = score wall_game"
    and b: "save_calls (world wall_game) = save_calls (world last_cell_game) @ [score wall_game]"
    by (simp_all add: save_calls_saveHighscore)
  let ?inps = "[([KeyPressed Up], 1 / 5), ([Closed], 1 / 5)] :: (Event list \<times> real) list"
  have noR: "\<forall>i\<in>set ?inps. KeyPressed R \<notin> set (fst i)" by simp
  from th have "\<forall>inps. (\<forall>i\<in>set inps. KeyPressed R \<notin> set (fst i)) \<longrightarrow>
            (\<exists>g''. frames draws_zero inps wall_game = Some g'' \<and> gameOver g''
               \<and> score g'' = score wall_game \<and> highscore g'' = highscore wall_game
               \<and> world g'' = world wall_game)"
    by (rule conjunct2)
  from mp [OF spec [OF this, of ?inps] noR] have c: "\<exists>g''. frames draws_zero ?inps wall_game = Some g''
          \<and> gameOver g'' \<and> world g'' = world wall_game"
    by blast
  show ?thesis
    by (intro conjI ng frame_last_cell go gt a b c)
qed

section \<open>Properties of a tick\<close>

lemma eat_fields:
  assumes "eat draws g = Some g'"
  shows "body (snake g') = body (snake g) \<and> dir (snake g') = dir (snake g)
       \<and> gameOver g' = gameOver g \<and> grow (snake g') = True
       \<and> score g' = score g + 10
       \<and> moveDelay g' = speed_up (moveDelay g)"
  using assms by (auto simp: eat_def speed_up_def Let_def split: option.splits)

lemma eat_returns:
  assumes "fair draws"
  shows "\<exists>g'. eat draws g = Some g'"
proof -
  let ?s = "(snake g)\<lparr>grow := True\<rparr>"
  have "\<exists>p r. spawnFood ?s draws (rng g) = Some (p, r)"
  proof (cases "int (length (body ?s)) \<ge> COLS * ROWS")
    case True
    then show ?thesis by (simp add: spawnFood_def)
  next
    case False
    then have "int (length (body ?s)) < COLS * ROWS" by simp
    from free_cell_exists [OF this] obtain c where c: "\<not> out_of_bounds c" "\<not> occupies ?s c"
      by blast
    from assms c(1) obtain k where "k \<ge> rng g" "draws k = c"
      unfolding fair_def by blast
    with c(2) have "\<exists>p j. spawnFood_loop ?s draws (rng g) = Some (p, j)"
      using spawnFood_loop_returns [of ?s draws k "rng g"] by simp
    with False show ?thesis by (simp add: spawnFood_def)
  qed
  then show ?thesis by (auto simp: eat_def Let_def)
qed

lemma tick_returns:
  assumes "fair draws" and "body (snake g) \<noteq> []"
  shows "\<exists>g'. tick draws g = Some g' \<and> body (snake g') \<noteq> []"
proof -
  from assms(2) obtain h t where b: "body (snake g) = h # t"
    by (cases "body (snake g)") auto
  from advance_Cons [OF b] obtain sn where
    sn: "body sn \<noteq> []"
    and adv0: "advance g =
              Some (g\<lparr>snake := sn,
                      gameOver := gameOver g \<or> out_of_bounds (vadd h (dir (snake g))) \<or> hitsSelf sn\<rparr>,
                    vadd h (dir (snake g)))"
    by blast
  define g3 where
    "g3 = g\<lparr>snake := sn,
             gameOver := gameOver g \<or> out_of_bounds (vadd h (dir (snake g))) \<or> hitsSelf sn\<rparr>"
  define hh where "hh = vadd h (dir (snake g))"
  have g3: "snake g3 = sn" by (simp add: g3_def)
  have adv: "advance g = Some (g3, hh)" by (simp add: adv0 g3_def hh_def)
  show ?thesis
  proof (cases "eating g3 hh")
    case True
    from eat_returns [OF assms(1), of g3] obtain g' where e: "eat draws g3 = Some g'" by blast
    with eat_fields [OF e] True adv sn g3 show ?thesis by (simp add: tick_def)
  next
    case False
    with adv sn g3 show ?thesis by (simp add: tick_def)
  qed
qed

lemma ticks_returns:
  assumes "fair draws" and "body (snake g) \<noteq> []"
  shows "\<exists>g'. ticks draws k g = Some g'"
  using assms(2)
proof (induction k arbitrary: g)
  case 0
  then show ?case by simp
next
  case (Suc k)
  from tick_returns [OF assms(1) Suc.prems] obtain g1 where
    "tick draws g = Some g1" "body (snake g1) \<noteq> []" by blast
  with Suc.IH [of g1] show ?case by simp
qed

section \<open>The straight run to the right wall\<close>

lemma fresh_on_row: "fresh_session g \<Longrightarrow> on_row 0 g"
  by (simp add: fresh_session_def on_row_def resetGame_def Snake_init_def COLS_def ROWS_def)

lemma on_row_advance:
  assumes "on_row k g"
  shows "\<exists>sn t'. advance g = Some (g\<lparr>snake := sn, gameOver := (k \<ge> 19)\<rparr>, (21 + int k, 15))
           \<and> dir sn = (1, 0) \<and> grow sn = False
           \<and> body sn = (21 + int k, 15) # t' \<and> (\<forall>c\<in>set t'. fst c < 21 + int k)
           \<and> (length (body (snake g)) = 1 \<and> \<not> grow (snake g) \<longrightarrow> t' = [])"
proof -
  from assms obtain t where ng: "\<not> gameOver g" and d: "dir (snake g) = (1, 0)"
    and b: "body (snake g) = (20 + int k, 15) # t" and t: "\<forall>c\<in>set t. fst c < 20 + int k"
    unfolding on_row_def by blast
  let ?h = "(20 + int k, 15) :: Vector2i"
  let ?nh = "(21 + int k, 15) :: Vector2i"
  have nh: "vadd ?h (dir (snake g)) = ?nh" by (simp add: vadd_def d)
  define t' where "t' = (if grow (snake g) then ?h # t else butlast (?h # t))"
  define sn where "sn = (snake g)\<lparr>body := ?nh # t', grow := False\<rparr>"
  have mv: "move (snake g) = Some sn"
    using move_Cons [OF b] by (auto simp: nh sn_def t'_def)
  have sub: "set t' \<subseteq> set (?h # t)"
    by (auto simp: t'_def dest: in_set_butlastD)
  have less: "\<forall>c\<in>set t'. fst c < 21 + int k"
  proof
    fix c assume "c \<in> set t'"
    with sub have "c = ?h \<or> c \<in> set t" by auto
    with t show "fst c < 21 + int k" by auto
  qed
  have bsn: "body sn = ?nh # t'" by (simp add: sn_def)
  have "?nh \<notin> set t'" using less by auto
  then have nohit: "\<not> hitsSelf sn" by (simp add: hitsSelf_Cons [OF bsn])
  have oob: "out_of_bounds ?nh \<longleftrightarrow> k \<ge> 19"
    by (auto simp: out_of_bounds_def COLS_def ROWS_def)
  have "advance g = Some (g\<lparr>snake := sn, gameOver := (k \<ge> 19)\<rparr>, ?nh)"
    using ng nohit oob by (simp add: advance_def mv bsn Let_def)
  moreover have "dir sn = (1, 0)" "grow sn = False" by (simp_all add: sn_def d)
  moreover have "length (body (snake g)) = 1 \<and> \<not> grow (snake g) \<longrightarrow> t' = []"
    by (auto simp: t'_def b)
  ultimately show ?thesis using bsn less by blast
qed

lemma on_row_tick:
  assumes "on_row k g" and "tick draws g = Some g'"
  shows "if k < 19 then on_row (Suc k) g' else gameOver g'"
proof -
  from on_row_advance [OF assms(1)] obtain sn t' where
    adv: "advance g = Some (g\<lparr>snake := sn, gameOver := (k \<ge> 19)\<rparr>, (21 + int k, 15))"
    and sn: "dir sn = (1, 0)" "body sn = (21 + int k, 15) # t'" "\<forall>c\<in>set t'. fst c < 21 + int k"
    by blast
  let ?g3 = "g\<lparr>snake := sn, gameOver := (k \<ge> 19)\<rparr>"
  have base: "if k < 19 then on_row (Suc k) ?g3 else gameOver ?g3"
    using sn by (auto simp: on_row_def)
  show ?thesis
  proof (cases "eating ?g3 (21 + int k, 15)")
    case False
    with assms(2) adv have "g' = ?g3" by (simp add: tick_def)
    with base show ?thesis by (cases "k < 19") simp_all
  next
    case True
    with assms(2) adv have e: "eat draws ?g3 = Some g'" by (simp add: tick_def)
    from eat_fields [OF e] base show ?thesis
      by (auto simp: on_row_def split: if_splits)
  qed
qed

lemma on_row_ticks:
  assumes "on_row j g" and "ticks draws k g = Some g'"
  shows "if j + k \<le> 19 then on_row (j + k) g' else gameOver g'"
  using assms
proof (induction k arbitrary: j g)
  case 0
  then show ?case by (auto simp: on_row_def)
next
  case (Suc k)
  from Suc.prems(1) have ng: "\<not> gameOver g" by (simp add: on_row_def)
  with Suc.prems(2) obtain g1 where t: "tick draws g = Some g1" and r: "ticks draws k g1 = Some g'"
    by (auto split: option.splits)
  from on_row_tick [OF Suc.prems(1) t] have step: "if j < 19 then on_row (Suc j) g1 else gameOver g1" .
  show ?case
  proof (cases "j < 19")
    case True
    with step have "on_row (Suc j) g1" by simp
    from Suc.IH [OF this r] show ?thesis by (auto split: if_splits)
  next
    case False
    with step have "gameOver g1" by simp
    with r have "g' = g1" by (cases k) auto
    with \<open>gameOver g1\<close> False show ?thesis by simp
  qed
qed

lemma plain_tick:
  assumes "on_row k g" and "body (snake g) = [(20 + int k, 15)]" and "\<not> grow (snake g)"
    and "k < 19 \<longrightarrow> food g \<noteq> (21 + int k, 15)"
  shows "\<exists>g'. tick draws g = Some g' \<and> body (snake g') = [(21 + int k, 15)]
           \<and> \<not> grow (snake g') \<and> food g' = food g \<and> score g' = score g
           \<and> moveDelay g' = moveDelay g"
proof -
  from on_row_advance [OF assms(1)] assms(2,3) obtain sn where
    adv: "advance g = Some (g\<lparr>snake := sn, gameOver := (k \<ge> 19)\<rparr>, (21 + int k, 15))"
    and sn: "grow sn = False" "body sn = [(21 + int k, 15)]"
    by auto
  let ?g3 = "g\<lparr>snake := sn, gameOver := (k \<ge> 19)\<rparr>"
  have "\<not> eating ?g3 (21 + int k, 15)"
    using assms(4) by (auto simp: eating_def)
  with adv have "tick draws g = Some ?g3" by (simp add: tick_def)
  with sn show ?thesis by simp
qed

lemma ticks_over: "gameOver g \<Longrightarrow> ticks draws k g = Some g"
  by (cases k) auto

lemma plain_ticks:
  assumes "on_row j g" and "body (snake g) = [(20 + int j, 15)]" and "\<not> grow (snake g)"
    and "\<not> (snd (food g) = 15 \<and> 21 + int j \<le> fst (food g)
             \<and> fst (food g) \<le> 20 + int (j + k) \<and> fst (food g) \<le> 39)"
  shows "\<exists>g'. ticks draws k g = Some g' \<and> body (snake g') = [(20 + int (min (j + k) 20), 15)]
           \<and> \<not> grow (snake g')
           \<and> food g' = food g \<and> score g' = score g \<and> moveDelay g' = moveDelay g"
  using assms
proof (induction k arbitrary: j g)
  case 0
  then show ?case by (simp add: on_row_def)
next
  case (Suc k)
  from Suc.prems(1) have ng: "\<not> gameOver g" and j: "j \<le> 19" by (simp_all add: on_row_def)
  have nf: "j < 19 \<longrightarrow> food g \<noteq> (21 + int j, 15)"
    using Suc.prems(4) by (cases "food g") auto
  from plain_tick [OF Suc.prems(1-3) nf, of draws] obtain g1 where
    t: "tick draws g = Some g1" and g1: "body (snake g1) = [(21 + int j, 15)]"
      "\<not> grow (snake g1)" "food g1 = food g" "score g1 = score g" "moveDelay g1 = moveDelay g"
    by blast
  from on_row_tick [OF Suc.prems(1) t] have step: "if j < 19 then on_row (Suc j) g1 else gameOver g1" .
  show ?case
  proof (cases "j < 19")
    case True
    with step have o: "on_row (Suc j) g1" by simp
    have b: "body (snake g1) = [(20 + int (Suc j), 15)]" using g1(1) by simp
    have f: "\<not> (snd (food g1) = 15 \<and> 21 + int (Suc j) \<le> fst (food g1)
                \<and> fst (food g1) \<le> 20 + int (Suc j + k) \<and> fst (food g1) \<le> 39)"
      using Suc.prems(4) g1(3) by auto
    from Suc.IH [OF o b g1(2) f] obtain g' where
      "ticks draws k g1 = Some g'" "body (snake g') = [(20 + int (min (Suc j + k) 20), 15)]"
      "\<not> grow (snake g')"
      "food g' = food g1" "score g' = score g1" "moveDelay g' = moveDelay g1"
      by blast
    with t ng g1 show ?thesis by simp
  next
    case False
    with j have j19: "j = 19" by simp
    from False step have go: "gameOver g1" by simp
    then have "ticks draws k g1 = Some g1" by (rule ticks_over)
    with t ng g1 j19 show ?thesis by simp
  qed
qed

lemma ticks_add:
  "ticks draws (a + b) g =
     (case ticks draws a g of None \<Rightarrow> None | Some g1 \<Rightarrow> ticks draws b g1)"
proof (induction a arbitrary: g)
  case 0
  show ?case by simp
next
  case (Suc a)
  show ?case
  proof (cases "gameOver g")
    case True
    then show ?thesis by (simp add: ticks_over)
  next
    case False
    then show ?thesis by (cases "tick draws g") (simp_all add: Suc.IH)
  qed
qed

lemma tick_score_mono:
  assumes "tick draws g = Some g'"
  shows "score g \<le> score g'"
proof -
  from assms obtain g3 h where a: "advance g = Some (g3, h)"
    by (auto simp: tick_def split: option.splits)
  show ?thesis
  proof (cases "eating g3 h")
    case True
    with assms a have "eat draws g3 = Some g'" by (simp add: tick_def)
    from eat_fields [OF this] advance_keeps [OF a] show ?thesis by simp
  next
    case False
    with assms a have "g' = g3" by (simp add: tick_def)
    with advance_keeps [OF a] show ?thesis by simp
  qed
qed

lemma ticks_score_mono:
  assumes "ticks draws k g = Some g'"
  shows "score g \<le> score g'"
  using assms
proof (induction k arbitrary: g)
  case 0
  then show ?case by simp
next
  case (Suc k)
  show ?case
  proof (cases "gameOver g")
    case True
    with Suc.prems show ?thesis by simp
  next
    case False
    with Suc.prems obtain g1 where t: "tick draws g = Some g1" and r: "ticks draws k g1 = Some g'"
      by (auto split: option.splits)
    from tick_score_mono [OF t] Suc.IH [OF r] show ?thesis by simp
  qed
qed

lemma food_ahead_eaten:
  assumes "fresh_session g" and "food_ahead g" and "ticks draws 20 g = Some g'"
  shows "score g' \<ge> 10"
proof -
  define m where "m = nat (fst (food g) - 21)"
  from assms(2) have fx: "fst (food g) = 21 + int m" "m \<le> 18" and fy: "snd (food g) = 15"
    by (auto simp: food_ahead_def m_def)
  have o: "on_row 0 g" by (rule fresh_on_row [OF assms(1)])
  have b: "body (snake g) = [(20 + int 0, 15)]" and ngr: "\<not> grow (snake g)"
    using assms(1)
    by (simp_all add: fresh_session_def resetGame_def Snake_init_def COLS_def ROWS_def)
  have f: "\<not> (snd (food g) = 15 \<and> 21 + int 0 \<le> fst (food g)
              \<and> fst (food g) \<le> 20 + int (0 + m) \<and> fst (food g) \<le> 39)"
    using fx by simp
  from plain_ticks [OF o b ngr f, of draws] obtain g1 where
    t1: "ticks draws m g = Some g1"
    and g1: "\<not> grow (snake g1)" "food g1 = food g" "score g1 = score g"
    by blast
  from on_row_ticks [OF o t1] fx(2) have o1: "on_row m g1" by simp
  then have ng1: "\<not> gameOver g1" by (simp add: on_row_def)
  from on_row_advance [OF o1] obtain sn where
    adv: "advance g1 = Some (g1\<lparr>snake := sn, gameOver := (m \<ge> 19)\<rparr>, (21 + int m, 15))"
    by blast
  let ?g3 = "g1\<lparr>snake := sn, gameOver := (m \<ge> 19)\<rparr>"
  have eatg: "eating ?g3 (21 + int m, 15)"
    using fx fy g1(2) by (cases "food g") (simp add: eating_def)
  have eq: "m + Suc (19 - m) = 20" using fx(2) by simp
  have "ticks draws (m + Suc (19 - m)) g = ticks draws (Suc (19 - m)) g1"
    by (simp only: ticks_add t1 option.case)
  with assms(3) have r1: "ticks draws (Suc (19 - m)) g1 = Some g'"
    by (simp only: eq)
  have "ticks draws (Suc (19 - m)) g1 =
          (case tick draws g1 of None \<Rightarrow> None | Some g2 \<Rightarrow> ticks draws (19 - m) g2)"
    using ng1 by (simp only: ticks.simps if_False)
  with r1 obtain g2 where t2: "tick draws g1 = Some g2" and r: "ticks draws (19 - m) g2 = Some g'"
    by (cases "tick draws g1") simp_all
  from t2 adv eatg have "eat draws ?g3 = Some g2" by (simp add: tick_def)
  from eat_fields [OF this] g1(3) assms(1) have "score g2 = 10"
    by (simp add: fresh_session_def)
  with ticks_score_mono [OF r] show ?thesis by simp
qed

text \<open>
  Claim C4, as the code has it. From the fresh session (40 by 30 board, snake
  at \<open>(20, 15)\<close>, heading \<open>(1, 0)\<close>) and with no key pressed, the game is over
  after exactly 20 ticks: whenever \<open>k\<close> ticks return, the game is over if and
  only if \<open>k\<close> is at least 20, and they do return when the generator is fair.
  The score is still 0 when the food is not on one of the cells \<open>(21, 15)\<close> to
  \<open>(39, 15)\<close> that the head crosses; when it is, it is eaten on the way and the
  score at the wall is at least 10.
\<close>

theorem straight_run:
  assumes "fresh_session g"
  shows "(\<forall>k g'. ticks draws k g = Some g' \<longrightarrow> (gameOver g' \<longleftrightarrow> 20 \<le> k))
       \<and> (fair draws \<longrightarrow> (\<forall>k. \<exists>g'. ticks draws k g = Some g'))
       \<and> (\<not> food_ahead g \<longrightarrow>
            (\<forall>k. \<exists>g'. ticks draws k g = Some g' \<and> score g' = 0
                \<and> body (snake g') = [(20 + int (min k 20), 15)]))
       \<and> (food_ahead g \<longrightarrow> (\<forall>g'. ticks draws 20 g = Some g' \<longrightarrow> score g' \<ge> 10))"
proof (intro conjI impI allI)
  fix k g'
  assume r: "ticks draws k g = Some g'"
  from on_row_ticks [OF fresh_on_row [OF assms] r]
  show "gameOver g' \<longleftrightarrow> 20 \<le> k"
    by (auto simp: on_row_def split: if_splits)
next
  fix k
  assume "fair draws"
  moreover have "body (snake g) \<noteq> []"
    using assms by (simp add: fresh_session_def resetGame_def Snake_init_def)
  ultimately show "\<exists>g'. ticks draws k g = Some g'" by (rule ticks_returns)
next
  fix k
  assume nf: "\<not> food_ahead g"
  have o: "on_row 0 g" by (rule fresh_on_row [OF assms])
  have b: "body (snake g) = [(20 + int 0, 15)]" and ngr: "\<not> grow (snake g)"
    using assms
    by (simp_all add: fresh_session_def resetGame_def Snake_init_def COLS_def ROWS_def)
  have f: "\<not> (snd (food g) = 15 \<and> 21 + int 0 \<le> fst (food g)
              \<and> fst (food g) \<le> 20 + int (0 + k) \<and> fst (food g) \<le> 39)"
    using nf by (simp add: food_ahead_def)
  from plain_ticks [OF o b ngr f, of draws] obtain g' where
    "ticks draws k g = Some g'" "body (snake g') = [(20 + int (min (0 + k) 20), 15)]"
    "score g' = score g"
    by blast
  with assms show "\<exists>g'. ticks draws k g = Some g' \<and> score g' = 0
                \<and> body (snake g') = [(20 + int (min k 20), 15)]"
    by (simp add: fresh_session_def)
next
  fix g'
  assume "food_ahead g" and "ticks draws 20 g = Some g'"
  with assms show "score g' \<ge> 10" by (rule food_ahead_eaten)
qed

lemma fair_draws_cycle: "fair draws_cycle"
  unfolding fair_def
proof (intro allI impI)
  fix c :: Vector2i and i :: nat
  assume inb: "\<not> out_of_bounds c"
  obtain x y where c: "c = (x, y)" by (cases c)
  from inb c have x: "0 \<le> x" "x < 40" and y: "0 \<le> y" "y < 30"
    by (simp_all add: out_of_bounds_def COLS_def ROWS_def)
  define k where "k = 1200 * i + (40 * nat y + nat x)"
  have nx: "nat x < 40" and ny: "nat y < 30" using x y by simp_all
  have k: "k = 40 * (30 * i + nat y) + nat x" by (simp add: k_def)
  have "k mod 40 = nat x"
    using nx by (simp only: k mod_mult_self4 mod_less)
  moreover have "k div 40 = 30 * i + nat y"
    using nx by (simp only: k div_mult_self4 div_less add_0_right)
  then have "(k div 40) mod 30 = nat y" using ny by simp
  ultimately have "draws_cycle k = c" using x y by (simp add: draws_cycle_def c)
  moreover have "k \<ge> i" by (simp add: k_def)
  ultimately show "\<exists>k\<ge>i. draws_cycle k = c" by blast
qed

lemma fresh_corner_start: "fresh_session corner_start"
  by (simp add: fresh_session_def corner_start_def demo_game_def resetGame_def Snake_init_def
      COLS_def ROWS_def f32_3_25)

lemma ticks_corner_start: "ticks draws_cycle 20 corner_start = Some corner_wall"
  by code_simp

theorem straight_run_witness:
  "fresh_session corner_start \<and> \<not> food_ahead corner_start \<and> fair draws_cycle
   \<and> ticks draws_cycle 20 corner_start = Some corner_wall
   \<and> gameOver corner_wall \<and> score corner_wall = 0
   \<and> (\<exists>g'. ticks draws_cycle 19 corner_start = Some g' \<and> \<not> gameOver g' \<and> score g' = 0)"
proof -
  note th = straight_run [OF fresh_corner_start, of draws_cycle]
  have nf: "\<not> food_ahead corner_start"
    by (simp add: food_ahead_def corner_start_def demo_game_def)
  from th have "\<forall>k g'. ticks draws_cycle k corner_start = Some g' \<longrightarrow> (gameOver g' \<longleftrightarrow> 20 \<le> k)"
    by (rule conjunct1)
  note over_iff = this [rule_format]
  from over_iff [OF ticks_corner_start] have go: "gameOver corner_wall" by simp
  from th have "\<not> food_ahead corner_start \<longrightarrow>
            (\<forall>k. \<exists>g'. ticks draws_cycle k corner_start = Some g' \<and> score g' = 0
                \<and> body (snake g') = [(20 + int (min k 20), 15)])"
    by (rule conjunct1 [OF conjunct2 [OF conjunct2]])
  note plain = this [rule_format, OF nf]
  from plain [of 20] ticks_corner_start have sc: "score corner_wall = 0" by auto
  from plain [of 19] obtain g' where g': "ticks draws_cycle 19 corner_start = Some g'" "score g' = 0"
    by blast
  from over_iff [OF g'(1)] have "\<not> gameOver g'" by simp
  with g' have before: "\<exists>g'. ticks draws_cycle 19 corner_start = Some g' \<and> \<not> gameOver g' \<and> score g' = 0"
    by blast
  show ?thesis
    by (intro conjI fresh_corner_start nf fair_draws_cycle ticks_corner_start go sc before)
qed

text \<open>
  With the food on the cell in front of the head the run ends at the wall after
  20 ticks with 10 points, not 0.
\<close>

theorem straight_run_score_counterexample:
  "fresh_session ahead_start
   \<and> ticks draws_zero 20 ahead_start = Some ahead_wall
   \<and> gameOver ahead_wall \<and> score ahead_wall = 10"
proof -
  have "fresh_session ahead_start"
    by (simp add: fresh_session_def ahead_start_def demo_game_def resetGame_def Snake_init_def
        COLS_def ROWS_def f32_3_25)
  moreover have "ticks draws_zero 20 ahead_start = Some ahead_wall"
    by code_simp
  moreover have "gameOver ahead_wall \<and> score ahead_wall = 10"
    by (simp add: ahead_wall_def)
  ultimately show ?thesis by blast
qed

section \<open>The loop returns with a fair generator\<close>

lemma spawnFood_returns:
  assumes "fair draws"
  shows "\<exists>p r. spawnFood s draws i = Some (p, r)"
proof (cases "int (length (body s)) \<ge> COLS * ROWS")
  case True
  then show ?thesis by (simp add: spawnFood_def)
next
  case False
  then have "int (length (body s)) < COLS * ROWS" by simp
  from free_cell_exists [OF this] obtain c where c: "\<not> out_of_bounds c" "\<not> occupies s c"
    by blast
  from assms c(1) obtain k where "k \<ge> i" "draws k = c"
    unfolding fair_def by blast
  with c(2) have "\<exists>p j. spawnFood_loop s draws i = Some (p, j)"
    using spawnFood_loop_returns [of s draws k i] by simp
  with False show ?thesis by (simp add: spawnFood_def)
qed

lemma init_game_returns: "fair draws \<Longrightarrow> \<exists>g. init_game draws w = Some g"
  using spawnFood_returns [of draws resetGame 0] by (auto simp: init_game_def)

lemma handle_event_returns:
  assumes "fair draws" and "body (snake g) \<noteq> []"
  shows "\<exists>g'. handle_event draws ev g = Some g' \<and> body (snake g') \<noteq> []"
proof -
  from spawnFood_returns [OF assms(1), of resetGame "rng g"] obtain p r where
    sp: "spawnFood resetGame draws (rng g) = Some (p, r)" by blast
  have rs: "\<exists>g'. restart draws g0 = Some g' \<and> body (snake g') \<noteq> []"
    if "rng g0 = rng g" for g0
    using sp that by (simp add: restart_def resetGame_def Snake_init_def)
  show ?thesis
  proof (cases ev)
    case Closed
    with assms(2) show ?thesis by (simp add: handle_event_def)
  next
    case OtherEvent
    with assms(2) show ?thesis by (simp add: handle_event_def)
  next
    case (KeyPressed k)
    show ?thesis
    proof (cases "gameOver g \<and> k = R")
      case True
      with KeyPressed rs [of g] show ?thesis by (simp add: handle_event_def Let_def)
    next
      case False
      with KeyPressed assms(2) show ?thesis
        by (auto simp: handle_event_def Let_def redirect_fields)
    qed
  qed
qed

lemma poll_events_returns:
  assumes "fair draws" and "body (snake g) \<noteq> []"
  shows "\<exists>g'. poll_events draws evs g = Some g' \<and> body (snake g') \<noteq> []"
  using assms(2)
proof (induction evs arbitrary: g)
  case Nil
  then show ?case by simp
next
  case (Cons ev evs)
  from handle_event_returns [OF assms(1) Cons.prems, of ev] obtain g1 where
    "handle_event draws ev g = Some g1" "body (snake g1) \<noteq> []" by blast
  with Cons.IH [of g1] show ?case by simp
qed

lemma frame_returns:
  assumes "fair draws" and "body (snake g) \<noteq> []"
  shows "\<exists>g'. frame draws inp g = Some g' \<and> body (snake g') \<noteq> []"
proof -
  from poll_events_returns [OF assms, of "fst inp"] obtain g1 where
    p: "poll_events draws (fst inp) g = Some g1" and b1: "body (snake g1) \<noteq> []" by blast
  let ?g2 = "g1\<lparr>acc_s := acc_s g1 + snd inp\<rparr>"
  let ?g2' = "?g2\<lparr>acc_s := acc_s ?g2 - moveDelay ?g2\<rparr>"
  have keep: "body (snake (record_highscore x)) = body (snake x)" for x
    by (simp add: record_highscore_def Let_def)
  show ?thesis
  proof (cases "\<not> gameOver ?g2 \<and> acc_s ?g2 \<ge> moveDelay ?g2")
    case True
    from b1 have "body (snake ?g2') \<noteq> []" by simp
    from tick_returns [OF assms(1) this] obtain g3 where
      "tick draws ?g2' = Some g3" "body (snake g3) \<noteq> []" by blast
    with True p show ?thesis by (simp add: frame_def Let_def keep)
  next
    case False
    with p b1 show ?thesis by (auto simp: frame_def Let_def keep)
  qed
qed

lemma frames_returns:
  assumes "fair draws" and "body (snake g) \<noteq> []"
  shows "\<exists>g'. frames draws inps g = Some g'"
  using assms(2)
proof (induction inps arbitrary: g)
  case Nil
  then show ?case by simp
next
  case (Cons inp inps)
  from frame_returns [OF assms(1) Cons.prems, of inp] obtain g1 where
    "frame draws inp g = Some g1" "body (snake g1) \<noteq> []" by blast
  with Cons.IH [of g1] show ?case by simp
qed

lemma play_returns:
  assumes "fair draws" and "body (snake g) \<noteq> []"
  shows "\<exists>g' m. play draws steps g n = Some (g', m)"
  using assms(2)
proof (induction steps arbitrary: g n)
  case Nil
  then show ?case by simp
next
  case (Cons step steps)
  show ?case
  proof (cases step)
    case (Press k)
    from handle_event_returns [OF assms(1) Cons.prems, of "KeyPressed k"] obtain g1 where
      "handle_event draws (KeyPressed k) g = Some g1" "body (snake g1) \<noteq> []" by blast
    with Cons.IH [of g1 n] Press show ?thesis by simp
  next
    case Tick
    show ?thesis
    proof (cases "gameOver g")
      case True
      with Cons.IH [OF Cons.prems, of n] Tick show ?thesis by simp
    next
      case False
      from tick_returns [OF assms(1) Cons.prems] obtain g1 where
        t: "tick draws g = Some g1" and b1: "body (snake g1) \<noteq> []" by blast
      from t obtain g3 h where a: "advance g = Some (g3, h)"
        by (auto simp: tick_def split: option.splits)
      from Cons.IH [OF b1, of "if eating g3 h then Suc n else n"] False Tick t a
      show ?thesis by simp
    qed
  qed
qed

section \<open>Score and interval\<close>

lemma speed_up_once: "speed_up (16106127 / 134217728) = 15300820 / 134217728"
  by (simp add: speed_up_def f32_eval)

lemma speed_up_floor: "speed_up (16106127 / 536870912) = 16106127 / 536870912"
  by (simp add: speed_up_def f32_eval)

lemma f32_interval_numeral:
  "f32_interval (numeral k) = speed_up (f32_interval (pred_numeral k))"
  by (simp add: numeral_eq_Suc)

lemma f32_interval_1: "f32_interval (Suc 0) = 15300820 / 134217728"
  by (simp add: f32_3_25 speed_up_once)

lemma f32_interval_28: "f32_interval 28 = 16106127 / 536870912"
  by (simp add: f32_interval_numeral f32_3_25 speed_up_def f32_eval)

lemma f32_interval_floor:
  assumes "28 \<le> n"
  shows "f32_interval n = 16106127 / 536870912"
  using assms
proof (induction n rule: dec_induct)
  case base
  show ?case by (rule f32_interval_28)
next
  case (step n)
  have "f32_interval (Suc n) = speed_up (f32_interval n)" by simp
  also have "\<dots> = speed_up (16106127 / 536870912)" by (simp only: step.IH)
  also have "\<dots> = 16106127 / 536870912" by (rule speed_up_floor)
  finally show ?case .
qed

lemma interval_after_floor:
  assumes "28 \<le> n"
  shows "interval_after n = 3 / 100"
proof -
  have "(95 / 100 :: real) ^ n \<le> (95 / 100) ^ 28"
    using assms by (intro power_decreasing) simp_all
  also have "\<dots> < 1 / 4" by (simp add: power_divide)
  finally have "12 / 100 * (95 / 100 :: real) ^ n < 3 / 100" by simp
  then show ?thesis by (simp add: interval_after_def max_def)
qed

lemma close_from_numeral:
  "close_from d i (numeral k) =
     (\<bar>d - max (3 / 100) i\<bar> \<le> 3 / 100000000
      \<and> close_from (speed_up d) (i * (95 / 100)) (pred_numeral k))"
  by (simp add: numeral_eq_Suc)

lemma close_from_start: "close_from (16106127 / 134217728) (12 / 100) 28"
  by (simp add: close_from_numeral speed_up_def f32_eval)

lemma close_from_interval:
  assumes "close_from (f32_interval n) (12 / 100 * (95 / 100) ^ n) k" and "j < k"
  shows "\<bar>f32_interval (n + j) - interval_after (n + j)\<bar> \<le> 3 / 100000000"
  using assms
proof (induction k arbitrary: n j)
  case 0
  then show ?case by simp
next
  case (Suc k)
  show ?case
  proof (cases j)
    case 0
    with Suc.prems(1) show ?thesis by (simp add: interval_after_def)
  next
    case (Suc j')
    from Suc.prems(1) have "close_from (f32_interval (Suc n)) (12 / 100 * (95 / 100) ^ Suc n) k"
      by (simp add: mult.assoc)
    moreover from Suc.prems(2) Suc have "j' < k" by simp
    ultimately have "\<bar>f32_interval (Suc n + j') - interval_after (Suc n + j')\<bar> \<le> 3 / 100000000"
      by (rule Suc.IH)
    with Suc show ?thesis by simp
  qed
qed

text \<open>
  The interval of the program never leaves the interval of the specification
  by more than \<open>3 / 10 ^ 8\<close>.
\<close>

lemma f32_interval_close: "\<bar>f32_interval n - interval_after n\<bar> \<le> 3 / 100000000"
proof (cases "n < 28")
  case True
  have "close_from (f32_interval 0) (12 / 100 * (95 / 100) ^ 0) 28"
    using close_from_start by (simp add: f32_3_25)
  from close_from_interval [OF this True] show ?thesis by simp
next
  case False
  then have "28 \<le> n" by simp
  then show ?thesis
    by (simp add: f32_interval_floor interval_after_floor)
qed

lemma tick_score:
  assumes "advance g = Some (g3, h)" and "tick draws g = Some g'"
  shows "score g' = score g + (if eating g3 h then 10 else 0)
       \<and> moveDelay g' = (if eating g3 h then speed_up (moveDelay g) else moveDelay g)"
proof (cases "eating g3 h")
  case True
  with assms have "eat draws g3 = Some g'" by (simp add: tick_def)
  from eat_fields [OF this] advance_keeps [OF assms(1)] True show ?thesis by simp
next
  case False
  with assms have "g' = g3" by (simp add: tick_def)
  with advance_keeps [OF assms(1)] False show ?thesis by simp
qed

lemma press_keeps:
  assumes "k \<noteq> R"
  shows "\<exists>g1. handle_event draws (KeyPressed k) g = Some g1
          \<and> score g1 = score g \<and> moveDelay g1 = moveDelay g"
  using assms by (simp add: handle_event_def Let_def)

lemma play_invariant:
  assumes "Press R \<notin> set steps" and "play draws steps g n = Some (g', n')"
    and "score g = 10 * int n" and "moveDelay g = f32_interval n"
  shows "score g' = 10 * int n' \<and> moveDelay g' = f32_interval n'"
  using assms
proof (induction steps arbitrary: g n)
  case Nil
  then show ?case by simp
next
  case (Cons step steps)
  from Cons.prems(1) have rest: "Press R \<notin> set steps" by simp
  show ?case
  proof (cases step)
    case (Press k)
    with Cons.prems(1) have "k \<noteq> R" by auto
    from press_keeps [OF this, of draws g] obtain g1 where
      g1: "handle_event draws (KeyPressed k) g = Some g1" "score g1 = score g"
        "moveDelay g1 = moveDelay g"
      by blast
    with Cons.prems(2) Press have "play draws steps g1 n = Some (g', n')" by simp
    from Cons.IH [OF rest this] g1 Cons.prems(3,4) show ?thesis by simp
  next
    case Tick
    show ?thesis
    proof (cases "gameOver g")
      case True
      with Cons.prems(2) Tick have "play draws steps g n = Some (g', n')" by simp
      from Cons.IH [OF rest this Cons.prems(3,4)] show ?thesis .
    next
      case False
      with Cons.prems(2) Tick obtain g3 h g1 where
        a: "advance g = Some (g3, h)" and t: "tick draws g = Some g1"
        and p: "play draws steps g1 (if eating g3 h then Suc n else n) = Some (g', n')"
        by (auto split: option.splits)
      note ts = tick_score [OF a t]
      show ?thesis
      proof (cases "eating g3 h")
        case True
        with ts Cons.prems(3,4) have "score g1 = 10 * int (Suc n)"
          and "moveDelay g1 = f32_interval (Suc n)"
          by simp_all
        with Cons.IH [OF rest, of g1 "Suc n"] p True show ?thesis by simp
      next
        case False
        with ts Cons.prems(3,4) have "score g1 = 10 * int n" and "moveDelay g1 = f32_interval n"
          by simp_all
        with Cons.IH [OF rest, of g1 n] p False show ?thesis by simp
      qed
    qed
  qed
qed

text \<open>
  Claim C2, as the code has it. A tick that takes the eating rule adds exactly
  10 to the score and no other tick changes it. In a run of ticks and key
  presses from a fresh session, without the restart key, after \<open>n\<close>
  consumptions the score is \<open>10 * n\<close> and the interval is the
  single-precision number \<open>f32_interval n\<close>, the result of \<open>n\<close> rounded steps of
  line 133 from \<open>0.12f\<close>. It lies within \<open>3 / 10 ^ 8\<close> of
  \<open>max 0.03 (0.12 * 0.95 ^ n)\<close>; after one consumption it is
  \<open>15300820 / 2 ^ 27\<close>, about 0.11399999. Every run returns when the generator
  is fair.
\<close>

theorem score_and_interval:
  assumes "fresh_session g" and "Press R \<notin> set steps" and "play draws steps g 0 = Some (g', n)"
  shows "score g' = 10 * int n
       \<and> moveDelay g' = f32_interval n
       \<and> \<bar>moveDelay g' - max (3 / 100) (12 / 100 * (95 / 100) ^ n)\<bar> \<le> 3 / 100000000
       \<and> (n = 1 \<longrightarrow> moveDelay g' = 15300820 / 134217728)
       \<and> (\<forall>g1 g3 h g2. advance g1 = Some (g3, h) \<and> tick draws g1 = Some g2 \<longrightarrow>
             score g2 = score g1 + (if eating g3 h then 10 else 0))
       \<and> (fair draws \<longrightarrow> (\<forall>st. \<exists>g2 m. play draws st g 0 = Some (g2, m)))"
proof -
  from assms(1) have "score g = 10 * int 0" and "moveDelay g = f32_interval 0"
    by (simp_all add: fresh_session_def del: of_nat_0)
  from play_invariant [OF assms(2,3) this] have
    s: "score g' = 10 * int n" and m: "moveDelay g' = f32_interval n"
    by simp_all
  from f32_interval_close [of n]
  have c: "\<bar>moveDelay g' - max (3 / 100) (12 / 100 * (95 / 100) ^ n)\<bar> \<le> 3 / 100000000"
    by (simp only: m interval_after_def)
  have one: "n = 1 \<longrightarrow> moveDelay g' = 15300820 / 134217728"
    using m f32_interval_1 by auto
  have each: "\<forall>g1 g3 h g2. advance g1 = Some (g3, h) \<and> tick draws g1 = Some g2 \<longrightarrow>
             score g2 = score g1 + (if eating g3 h then 10 else 0)"
    using tick_score by blast
  have ne: "body (snake g) \<noteq> []"
    using assms(1) by (simp add: fresh_session_def resetGame_def Snake_init_def)
  have total: "fair draws \<longrightarrow> (\<forall>st. \<exists>g2 m. play draws st g 0 = Some (g2, m))"
    using play_returns [OF _ ne] by blast
  show ?thesis
    by (intro conjI s m c one each total)
qed

lemma fresh_ahead_start: "fresh_session ahead_start"
  by (simp add: fresh_session_def ahead_start_def demo_game_def resetGame_def Snake_init_def
      COLS_def ROWS_def f32_3_25)

lemma play_ahead_start: "play draws_zero [Tick] ahead_start 0 = Some (ahead_fed, 1)"
  by code_simp

theorem score_and_interval_witness:
  "fresh_session ahead_start \<and> Press R \<notin> set [Tick]
   \<and> play draws_zero [Tick] ahead_start 0 = Some (ahead_fed, 1)
   \<and> score ahead_fed = 10 \<and> moveDelay ahead_fed = 15300820 / 134217728
   \<and> \<bar>moveDelay ahead_fed - 114 / 1000\<bar> \<le> 3 / 100000000
   \<and> hd (body (snake ahead_fed)) = food ahead_start"
proof -
  have noR: "Press R \<notin> set [Tick]" by simp
  note th = score_and_interval [OF fresh_ahead_start noR play_ahead_start]
  from th have s: "score ahead_fed = 10" by simp
  from th have "(1::nat) = 1 \<longrightarrow> moveDelay ahead_fed = 15300820 / 134217728"
    by (rule conjunct1 [OF conjunct2 [OF conjunct2 [OF conjunct2]]])
  then have m: "moveDelay ahead_fed = 15300820 / 134217728" by simp
  from th have "\<bar>moveDelay ahead_fed - max (3 / 100) (12 / 100 * (95 / 100) ^ 1)\<bar>
      \<le> 3 / 100000000"
    by (rule conjunct1 [OF conjunct2 [OF conjunct2]])
  then have c: "\<bar>moveDelay ahead_fed - 114 / 1000\<bar> \<le> 3 / 100000000" by simp
  have h: "hd (body (snake ahead_fed)) = food ahead_start"
    by (simp add: ahead_fed_def ahead_start_def demo_game_def)
  show ?thesis
    by (intro conjI fresh_ahead_start noR play_ahead_start s m c h)
qed

text \<open>
  After one consumption the interval is neither the value of the formula,
  0.114, nor the single-precision number nearest to it, \<open>15300821 / 2 ^ 27\<close>.
\<close>

theorem interval_not_exact_counterexample:
  "fresh_session ahead_start
   \<and> play draws_zero [Tick] ahead_start 0 = Some (ahead_fed, 1)
   \<and> moveDelay ahead_fed = 15300820 / 134217728
   \<and> moveDelay ahead_fed \<noteq> max (3 / 100) (12 / 100 * (95 / 100) ^ 1)
   \<and> moveDelay ahead_fed \<noteq> 114 / 1000
   \<and> moveDelay ahead_fed \<noteq> f32_round (114 / 1000)"
proof -
  have m: "moveDelay ahead_fed = 15300820 / 134217728" by (simp add: ahead_fed_def)
  have r: "f32_round (57 / 500) = 15300821 / 134217728" by (simp add: f32_eval)
  show ?thesis
    by (intro conjI fresh_ahead_start play_ahead_start m) (simp_all add: m r)
qed

section \<open>Properties of the high score file\<close>

lemma digit_not_space: "is_digit x \<Longrightarrow> \<not> is_space x"
  by (auto simp: is_digit_def is_space_def)

lemma digit_not_sign: "is_digit x \<Longrightarrow> x \<noteq> CHR ''-'' \<and> x \<noteq> CHR ''+''"
  by (auto simp: is_digit_def)

lemma sign_not_space: "\<not> is_space CHR ''-''" "\<not> is_space CHR ''+''"
  by (simp_all add: is_space_def)

lemma leading_integer_scan:
  assumes "leading_integer c v"
  obtains sg ds rest where
    "dropWhile is_space c = sg @ ds @ rest"
    and "take_sign (sg @ ds @ rest) = (sg = ''-'', ds @ rest)"
    and "takeWhile is_digit (ds @ rest) = ds" and "ds \<noteq> []"
    and "v = (if sg = ''-'' then - dec_val ds else dec_val ds)"
proof -
  from assms obtain ws sg ds rest where
    c: "c = ws @ sg @ ds @ rest" and ws: "\<forall>x\<in>set ws. is_space x"
    and sg: "sg = [] \<or> sg = ''+'' \<or> sg = ''-''"
    and ds: "ds \<noteq> []" "\<forall>x\<in>set ds. is_digit x"
    and rest: "rest = [] \<or> \<not> is_digit (hd rest)"
    and v: "v = (if sg = ''-'' then - dec_val ds else dec_val ds)"
    unfolding leading_integer_def by blast
  from ds obtain d ds' where dd: "ds = d # ds'" and d: "is_digit d"
    by (cases ds) auto
  have first: "dropWhile is_space (sg @ ds @ rest) = sg @ ds @ rest"
    using sg d by (auto simp: dd digit_not_space sign_not_space)
  have drop: "dropWhile is_space c = sg @ ds @ rest"
    using ws by (simp add: c dropWhile_append2 first)
  have sign: "take_sign (sg @ ds @ rest) = (sg = ''-'', ds @ rest)"
    using sg digit_not_sign [OF d] by (auto simp: take_sign_def dd)
  have "takeWhile is_digit rest = []"
    using rest by (cases rest) auto
  then have digits: "takeWhile is_digit (ds @ rest) = ds"
    using ds(2) by (simp add: takeWhile_append2)
  from drop sign digits ds(1) v show thesis by (rule that)
qed

lemma extract_int_leading:
  assumes "leading_integer c v"
  shows "extract_int c = (if INT_MIN \<le> v \<and> v \<le> INT_MAX then Some v else None)"
proof -
  from assms obtain sg ds rest where
    drop: "dropWhile is_space c = sg @ ds @ rest"
    and sign: "take_sign (sg @ ds @ rest) = (sg = ''-'', ds @ rest)"
    and digits: "takeWhile is_digit (ds @ rest) = ds" and ds: "ds \<noteq> []"
    and v: "v = (if sg = ''-'' then - dec_val ds else dec_val ds)"
    by (rule leading_integer_scan)
  have "extract_int c =
          (if ds = [] then None
           else if INT_MIN \<le> v \<and> v \<le> INT_MAX then Some v else None)"
    unfolding v by (auto simp: extract_int_def drop sign digits Let_def)
  with ds show ?thesis by simp
qed

lemma no_leading_integer:
  assumes "takeWhile is_digit (snd (take_sign (dropWhile is_space c))) = []"
  shows "\<not> leading_integer c u"
proof
  assume "leading_integer c u"
  then obtain sg ds rest where
    "dropWhile is_space c = sg @ ds @ rest"
    and "take_sign (sg @ ds @ rest) = (sg = ''-'', ds @ rest)"
    and "takeWhile is_digit (ds @ rest) = ds" and "ds \<noteq> []"
    by (rule leading_integer_scan)
  with assms show False by simp
qed

lemma take_sign_split:
  "\<exists>sg. (sg = [] \<or> sg = ''+'' \<or> sg = ''-'') \<and> r = sg @ snd (take_sign r)
        \<and> fst (take_sign r) = (sg = ''-'')"
  by (cases r) (auto simp: take_sign_def)

lemma extract_int_sound:
  assumes "extract_int c = Some v"
  shows "leading_integer c v \<and> INT_MIN \<le> v \<and> v \<le> INT_MAX"
proof -
  define ws where "ws = takeWhile is_space c"
  define r where "r = dropWhile is_space c"
  define ds where "ds = takeWhile is_digit (snd (take_sign r))"
  define rest where "rest = dropWhile is_digit (snd (take_sign r))"
  from take_sign_split [of r] obtain sg where
    sg: "sg = [] \<or> sg = ''+'' \<or> sg = ''-''" and r: "r = sg @ snd (take_sign r)"
    and neg: "fst (take_sign r) = (sg = ''-'')"
    by blast
  have "c = ws @ r" by (simp add: ws_def r_def)
  moreover have "snd (take_sign r) = ds @ rest" by (simp add: ds_def rest_def)
  ultimately have c: "c = ws @ sg @ ds @ rest" using r by simp
  have ws: "\<forall>x\<in>set ws. is_space x"
    by (auto simp: ws_def dest: set_takeWhileD)
  have dsd: "\<forall>x\<in>set ds. is_digit x"
    by (auto simp: ds_def dest: set_takeWhileD)
  have rest: "rest = [] \<or> \<not> is_digit (hd rest)"
    unfolding rest_def by (metis hd_dropWhile)
  from assms have ex: "ds \<noteq> []"
    and val: "v = (if fst (take_sign r) then - dec_val ds else dec_val ds)"
    and range: "INT_MIN \<le> v" "v \<le> INT_MAX"
    by (auto simp: extract_int_def Let_def r_def ds_def split: prod.splits if_splits)
  from val neg have v: "v = (if sg = ''-'' then - dec_val ds else dec_val ds)" by simp
  have "leading_integer c v"
    unfolding leading_integer_def
    using c ws sg ex dsd rest v by blast
  with range show ?thesis by simp
qed

lemma extract_int_none:
  assumes "\<forall>u. \<not> leading_integer c u"
  shows "extract_int c = None"
  using extract_int_sound [of c] assms by (cases "extract_int c") auto

lemma loadHighscore_leading:
  assumes "contents w = Some c" and "leading_integer c v"
  shows "loadHighscore w = (if INT_MIN \<le> v \<and> v \<le> INT_MAX then v else 0)"
  using extract_int_leading [OF assms(2)] assms(1) by (simp add: loadHighscore_def)

lemma dec_val_snoc: "dec_val (xs @ [x]) = 10 * dec_val xs + digit_val x"
  by (simp add: dec_val_def)

lemma dec_val_nonneg:
  assumes "\<forall>x\<in>set ds. is_digit x"
  shows "0 \<le> dec_val ds"
  using assms
proof (induction ds rule: rev_induct)
  case Nil
  show ?case by (simp add: dec_val_def)
next
  case (snoc x xs)
  then have "0 \<le> dec_val xs" and "is_digit x" by simp_all
  moreover from \<open>is_digit x\<close> have "0 \<le> digit_val x" by (simp add: is_digit_def digit_val_def)
  ultimately show ?case by (simp add: dec_val_snoc)
qed

lemma leading_integerI:
  assumes "\<forall>x\<in>set ws. is_space x" and "sg = [] \<or> sg = ''+'' \<or> sg = ''-''"
    and "ds \<noteq> []" and "\<forall>x\<in>set ds. is_digit x" and "rest = [] \<or> \<not> is_digit (hd rest)"
  shows "leading_integer (ws @ sg @ ds @ rest) (if sg = ''-'' then - dec_val ds else dec_val ds)"
  unfolding leading_integer_def using assms by blast

lemma spec_decimal_leading:
  assumes "spec_decimal c"
  shows "leading_integer c (dec_val c) \<and> 0 \<le> dec_val c"
proof -
  from assms have ne: "c \<noteq> []" and dg: "\<forall>x\<in>set c. is_digit x"
    by (simp_all add: spec_decimal_def list_all_iff)
  from leading_integerI [of "[]" "[]" c "[]"] ne dg have "leading_integer c (dec_val c)"
    by simp
  with dec_val_nonneg [OF dg] show ?thesis by simp
qed

lemma digit_char:
  assumes "d < 10"
  shows "is_digit (char_of (48 + d)) \<and> digit_val (char_of (48 + d)) = int d"
  using assms by (simp add: is_digit_def digit_val_def)

lemma digits_of_correct:
  "digits_of n \<noteq> [] \<and> (\<forall>x\<in>set (digits_of n). is_digit x) \<and> dec_val (digits_of n) = int n"
proof (induction n rule: digits_of.induct)
  case (1 n)
  show ?case
  proof (cases "n < 10")
    case True
    then have "digits_of n = [char_of (48 + n)]" by (subst digits_of.simps) simp
    with digit_char [OF True] show ?thesis by (simp add: dec_val_def)
  next
    case False
    then have eq: "digits_of n = digits_of (n div 10) @ [char_of (48 + n mod 10)]"
      by (subst digits_of.simps) simp
    have "n mod 10 < 10" by simp
    note dc = digit_char [OF this]
    have "10 * (n div 10) + n mod 10 = n" by simp
    then have ar: "10 * int (n div 10) + int (n mod 10) = int n" by arith
    from dc "1.IH" [OF False] ar show ?thesis
      by (simp add: eq dec_val_snoc)
  qed
qed

lemma leading_integer_to_string: "leading_integer (to_string s) s"
proof -
  let ?ds = "digits_of (nat \<bar>s\<bar>)"
  let ?sg = "if s < 0 then ''-'' else []"
  note d = digits_of_correct [of "nat \<bar>s\<bar>"]
  have ts: "to_string s = [] @ ?sg @ ?ds @ []"
    by (simp add: to_string_def)
  have val: "(if ?sg = ''-'' then - dec_val ?ds else dec_val ?ds) = s"
    using d by simp
  have "leading_integer ([] @ ?sg @ ?ds @ []) (if ?sg = ''-'' then - dec_val ?ds else dec_val ?ds)"
    using d by (intro leading_integerI) simp_all
  then show ?thesis unfolding val ts [symmetric] .
qed

text \<open>
  Claim C8, as the code has it. \<open>loadHighscore\<close> is a total function of the
  file and returns 0 when there is no file. When the content starts with
  an integer \<open>v\<close> (after white space and an optional sign, and whatever follows
  its digits) it returns \<open>v\<close> if \<open>v\<close> is in the range of \<open>int\<close> and 0 if not;
  when the content does not start with an integer it returns 0. So for the
  record of the specification, digits and nothing else, it returns the
  persisted integer up to \<open>INT_MAX\<close> and 0 above. It differs from the \<open>load\<close>
  of the specification exactly on a record above \<open>INT_MAX\<close> and on a content
  that is no record but starts with an integer other than 0 in the range of
  \<open>int\<close>. It returns what \<open>saveHighscore\<close> wrote, for every \<open>int\<close>.
\<close>

theorem loadHighscore_cases:
  "(contents w = None \<longrightarrow> loadHighscore w = 0)
   \<and> (contents w = Some c \<and> leading_integer c v \<longrightarrow>
        loadHighscore w = (if INT_MIN \<le> v \<and> v \<le> INT_MAX then v else 0))
   \<and> (contents w = Some c \<and> (\<forall>u. \<not> leading_integer c u) \<longrightarrow> loadHighscore w = 0)
   \<and> (contents w = Some c \<and> spec_decimal c \<longrightarrow>
        loadHighscore w = (if dec_val c \<le> INT_MAX then dec_val c else 0))
   \<and> (loadHighscore w \<noteq> spec_load (contents w) \<longleftrightarrow>
        (\<exists>d. contents w = Some d
           \<and> (if spec_decimal d then INT_MAX < dec_val d
              else \<exists>u. leading_integer d u \<and> u \<noteq> 0 \<and> INT_MIN \<le> u \<and> u \<le> INT_MAX)))
   \<and> (writable w \<and> INT_MIN \<le> s \<and> s \<le> INT_MAX \<longrightarrow> loadHighscore (saveHighscore s w) = s)"
proof (intro conjI impI)
  assume "contents w = None"
  then show "loadHighscore w = 0" by (simp add: loadHighscore_def)
next
  assume "contents w = Some c \<and> leading_integer c v"
  then show "loadHighscore w = (if INT_MIN \<le> v \<and> v \<le> INT_MAX then v else 0)"
    using loadHighscore_leading by blast
next
  assume a: "contents w = Some c \<and> (\<forall>u. \<not> leading_integer c u)"
  then have "extract_int c = None" by (simp add: extract_int_none)
  with a show "loadHighscore w = 0" by (simp add: loadHighscore_def)
next
  assume a: "contents w = Some c \<and> spec_decimal c"
  then have l: "leading_integer c (dec_val c)" and "0 \<le> dec_val c"
    using spec_decimal_leading by blast+
  then have "INT_MIN \<le> dec_val c" by (simp add: INT_MIN_def)
  with loadHighscore_leading [OF conjunct1 [OF a] l]
  show "loadHighscore w = (if dec_val c \<le> INT_MAX then dec_val c else 0)" by simp
next
  show "loadHighscore w \<noteq> spec_load (contents w) \<longleftrightarrow>
        (\<exists>d. contents w = Some d
           \<and> (if spec_decimal d then INT_MAX < dec_val d
              else \<exists>u. leading_integer d u \<and> u \<noteq> 0 \<and> INT_MIN \<le> u \<and> u \<le> INT_MAX))"
  proof (cases "contents w")
    case None
    then show ?thesis by (simp add: loadHighscore_def spec_load_def)
  next
    case (Some d)
    show ?thesis
    proof (cases "spec_decimal d")
      case True
      from spec_decimal_leading [OF True]
      have l: "leading_integer d (dec_val d)" and nn: "0 \<le> dec_val d" by simp_all
      from nn have "INT_MIN \<le> dec_val d" by (simp add: INT_MIN_def)
      with loadHighscore_leading [OF Some l]
      have ld: "loadHighscore w = (if dec_val d \<le> INT_MAX then dec_val d else 0)" by simp
      have sp: "spec_load (contents w) = dec_val d"
        using Some True by (simp add: spec_load_def)
      have "loadHighscore w \<noteq> spec_load (contents w) \<longleftrightarrow> INT_MAX < dec_val d"
        unfolding ld sp by (auto simp: INT_MAX_def)
      with Some True show ?thesis by simp
    next
      case False
      have sp: "spec_load (contents w) = 0"
        using Some False by (simp add: spec_load_def)
      have "loadHighscore w \<noteq> 0 \<longleftrightarrow>
          (\<exists>u. leading_integer d u \<and> u \<noteq> 0 \<and> INT_MIN \<le> u \<and> u \<le> INT_MAX)"
      proof
        assume n: "loadHighscore w \<noteq> 0"
        with Some obtain h where e: "extract_int d = Some h" and h: "loadHighscore w = h"
          by (cases "extract_int d") (auto simp: loadHighscore_def)
        from extract_int_sound [OF e] n h
        show "\<exists>u. leading_integer d u \<and> u \<noteq> 0 \<and> INT_MIN \<le> u \<and> u \<le> INT_MAX" by blast
      next
        assume "\<exists>u. leading_integer d u \<and> u \<noteq> 0 \<and> INT_MIN \<le> u \<and> u \<le> INT_MAX"
        then obtain u where u: "leading_integer d u" and r: "u \<noteq> 0" "INT_MIN \<le> u" "u \<le> INT_MAX"
          by blast
        from loadHighscore_leading [OF Some u] r show "loadHighscore w \<noteq> 0" by simp
      qed
      with Some False sp show ?thesis by simp
    qed
  qed
next
  assume a: "writable w \<and> INT_MIN \<le> s \<and> s \<le> INT_MAX"
  with extract_int_leading [OF leading_integer_to_string [of s]]
  have "extract_int (to_string s) = Some s" by simp
  with a show "loadHighscore (saveHighscore s w) = s"
    by (simp add: loadHighscore_def saveHighscore_def Let_def)
qed

lemma extract_int_samples:
  "extract_int ''150'' = Some 150" "extract_int ''abc'' = None"
  "extract_int ''12abc'' = Some 12"
  by code_simp+

lemma spec_decimal_samples:
  "spec_decimal ''150''" "\<not> spec_decimal ''12abc''" "\<not> spec_decimal ''abc''"
  by code_simp+

theorem loadHighscore_cases_witness:
  "contents no_file = None \<and> loadHighscore no_file = 0
   \<and> contents trailing_text = Some ''12abc'' \<and> leading_integer ''12abc'' 12
   \<and> loadHighscore trailing_text = 12
   \<and> contents garbled = Some ''abc'' \<and> (\<forall>u. \<not> leading_integer ''abc'' u)
   \<and> loadHighscore garbled = 0
   \<and> contents saved_150 = Some ''150'' \<and> spec_decimal ''150''
   \<and> loadHighscore saved_150 = 150
   \<and> writable no_file \<and> INT_MIN \<le> 150 \<and> 150 \<le> INT_MAX
   \<and> loadHighscore (saveHighscore 150 no_file) = 150"
proof -
  have r: "INT_MIN \<le> 150" "150 \<le> INT_MAX" "INT_MIN \<le> 12" "12 \<le> INT_MAX"
    by (simp_all add: INT_MIN_def INT_MAX_def)
  have c1: "contents no_file = None" and wr: "writable no_file" by (simp_all add: no_file_def)
  have c2: "contents trailing_text = Some ''12abc''" by (simp add: trailing_text_def)
  have d2: "leading_integer ''12abc'' 12"
    using extract_int_sound [OF extract_int_samples(3)] by simp
  have c3: "contents garbled = Some ''abc''" by (simp add: garbled_def)
  have "takeWhile is_digit (snd (take_sign (dropWhile is_space ''abc''))) = []"
    by code_simp
  then have d3: "\<forall>u. \<not> leading_integer ''abc'' u"
    by (simp add: no_leading_integer)
  have c4: "contents saved_150 = Some ''150''" by (simp add: saved_150_def)
  have d4: "spec_decimal ''150''" by (rule spec_decimal_samples)
  have v4: "dec_val ''150'' = 150" by code_simp
  note a = loadHighscore_cases [of no_file "''150''" 150 150]
  note b = loadHighscore_cases [of trailing_text "''12abc''" 12 150]
  note c = loadHighscore_cases [of garbled "''abc''" 150 150]
  note d = loadHighscore_cases [of saved_150 "''150''" 150 150]
  from a c1 have l1: "loadHighscore no_file = 0" by (simp only: simp_thms)
  from b c2 d2 r have l2: "loadHighscore trailing_text = 12" by simp
  from c c3 d3 have l3: "loadHighscore garbled = 0" by (simp only: simp_thms)
  from d c4 d4 r have l4: "loadHighscore saved_150 = 150" by (simp add: v4)
  from a wr r have l5: "loadHighscore (saveHighscore 150 no_file) = 150" by (simp only: simp_thms)
  show ?thesis
    by (intro conjI c1 l1 c2 d2 l2 c3 d3 l3 c4 d4 l4 wr r(1,2) l5)
qed

text \<open>
  Two files on which \<open>loadHighscore\<close> is not the \<open>load\<close> of the specification:
  a number followed by text is no record, and 12 is returned for it, not 0;
  the digits of 99999999999 are a record, and 0 is returned for it.
\<close>

theorem loadHighscore_counterexample:
  "contents trailing_text = Some ''12abc'' \<and> \<not> spec_decimal ''12abc''
   \<and> spec_load (contents trailing_text) = 0 \<and> loadHighscore trailing_text = 12
   \<and> contents too_large = Some ''99999999999'' \<and> spec_decimal ''99999999999''
   \<and> dec_val ''99999999999'' = 99999999999
   \<and> spec_load (contents too_large) = 99999999999 \<and> loadHighscore too_large = 0"
proof -
  have c1: "contents trailing_text = Some ''12abc''" by (simp add: trailing_text_def)
  have c2: "contents too_large = Some ''99999999999''" by (simp add: too_large_def)
  have d1: "\<not> spec_decimal ''12abc''" by (rule spec_decimal_samples)
  have d2: "spec_decimal ''99999999999''" by code_simp
  have v2: "dec_val ''99999999999'' = 99999999999" by code_simp
  have s1: "spec_load (contents trailing_text) = 0"
    by (simp only: c1 spec_load_def option.case d1 if_False)
  have s2: "spec_load (contents too_large) = 99999999999"
    by (simp only: c2 spec_load_def option.case d2 if_True v2)
  have e2: "extract_int ''99999999999'' = None" by code_simp
  have l1: "loadHighscore trailing_text = 12"
    by (simp only: loadHighscore_def c1 option.case extract_int_samples)
  have l2: "loadHighscore too_large = 0"
    by (simp only: loadHighscore_def c2 option.case e2)
  show ?thesis
    by (intro conjI c1 d1 s1 l1 c2 d2 v2 s2 l2)
qed

section \<open>The states the loop reaches\<close>

lemma unit_dir_redirect: "unit_dir (dir s) \<Longrightarrow> unit_dir (dir (redirect k s))"
  by (cases k) (auto simp: redirect_eq unit_dir_def)

lemma safe_fresh:
  assumes "snake g = resetGame" and "score g = 0" and "\<not> gameOver g"
  shows "safe g"
  using assms
  by (simp add: safe_def resetGame_def Snake_init_def COLS_def ROWS_def near_board_def
      out_of_bounds_def unit_dir_def)

lemma init_game_safe: "init_game draws w = Some g \<Longrightarrow> safe g"
  by (rule safe_fresh) (auto simp: init_game_def split: option.splits)

lemma restart_safe: "restart draws g = Some g' \<Longrightarrow> safe g'"
  by (rule safe_fresh) (auto simp: restart_def split: option.splits)

lemma handle_event_safe:
  assumes "safe g" and "handle_event draws ev g = Some g'"
  shows "safe g'"
proof (cases ev)
  case Closed
  with assms show ?thesis by (auto simp: handle_event_def safe_def)
next
  case OtherEvent
  with assms show ?thesis by (auto simp: handle_event_def safe_def)
next
  case (KeyPressed k)
  show ?thesis
  proof (cases "gameOver g")
    case True
    show ?thesis
    proof (cases "k = R")
      case True
      with \<open>gameOver g\<close> assms(2) KeyPressed have "restart draws g = Some g'"
        by (simp add: handle_event_def Let_def)
      then show ?thesis by (rule restart_safe)
    next
      case False
      with \<open>gameOver g\<close> assms KeyPressed show ?thesis
        by (simp add: handle_event_def Let_def)
    qed
  next
    case False
    with assms(2) KeyPressed have g': "g' = g\<lparr>snake := redirect k (snake g)\<rparr>"
      by (simp add: handle_event_def Let_def)
    from assms(1) show ?thesis
      by (simp add: g' safe_def redirect_fields unit_dir_redirect)
  qed
qed

lemma poll_events_safe:
  assumes "safe g" and "poll_events draws evs g = Some g'"
  shows "safe g'"
  using assms
proof (induction evs arbitrary: g)
  case Nil
  then show ?case by simp
next
  case (Cons ev evs)
  from Cons.prems(2) obtain g1 where
    h: "handle_event draws ev g = Some g1" and r: "poll_events draws evs g1 = Some g'"
    by (auto split: option.splits)
  from Cons.IH [OF handle_event_safe [OF Cons.prems(1) h] r] show ?case .
qed

lemma near_board_step:
  assumes "\<not> out_of_bounds h" and "unit_dir d"
  shows "near_board (vadd h d)"
  using assms
  by (auto simp: near_board_def out_of_bounds_def unit_dir_def vadd_def COLS_def ROWS_def)

lemma advance_safe:
  assumes "safe g" and "\<not> gameOver g" and "advance g = Some (g3, hh)"
  shows "safe g3 \<and> \<not> grow (snake g3) \<and> body (snake g3) \<noteq> []"
proof -
  from assms(1,2) obtain h t where b: "body (snake g) = h # t"
    and t: "distinct t" "\<forall>c\<in>set t. \<not> out_of_bounds c"
    and h: "\<not> out_of_bounds h" "h \<notin> set t"
    and d: "unit_dir (dir (snake g))"
    and sc: "score g = 10 * (int (length (body (snake g))) - 1 + (if grow (snake g) then 1 else 0))"
    unfolding safe_def by blast
  let ?nh = "vadd h (dir (snake g))"
  define t' where "t' = (if grow (snake g) then h # t else butlast (h # t))"
  define sn where "sn = (snake g)\<lparr>body := ?nh # t', grow := False\<rparr>"
  have mv: "move (snake g) = Some sn"
    using move_Cons [OF b] by (auto simp: sn_def t'_def)
  have bsn: "body sn = ?nh # t'" by (simp add: sn_def)
  have g3: "g3 = g\<lparr>snake := sn, gameOver := out_of_bounds ?nh \<or> hitsSelf sn\<rparr>"
    using assms(2,3) by (auto simp: advance_def mv bsn Let_def)
  have dist: "distinct (h # t)" using t(1) h(2) by simp
  have dt': "distinct t'"
  proof (cases "grow (snake g)")
    case True
    with dist show ?thesis by (simp only: t'_def if_True)
  next
    case False
    with distinct_butlast [OF dist] show ?thesis by (simp only: t'_def if_False)
  qed
  have sub: "set t' \<subseteq> set (h # t)"
    by (auto simp: t'_def dest: in_set_butlastD)
  have inb: "\<forall>c\<in>set t'. \<not> out_of_bounds c"
    using sub t(2) h(1) by auto
  have nb: "near_board ?nh" by (rule near_board_step [OF h(1) d])
  have len: "int (length t') = int (length (h # t)) - 1 + (if grow (snake g) then 1 else 0)"
    by (simp add: t'_def)
  have score3: "score g3 = 10 * (int (length (body (snake g3))) - 1 + (if grow (snake g3) then 1 else 0))"
    using sc len by (simp add: g3 sn_def b)
  have over: "\<not> gameOver g3 \<longrightarrow> \<not> out_of_bounds ?nh \<and> ?nh \<notin> set t'"
    by (simp add: g3 hitsSelf_Cons [OF bsn])
  have "safe g3"
    unfolding safe_def
    using nb dt' inb over d score3
    by (auto simp: g3 sn_def intro!: exI [of _ ?nh] exI [of _ t'])
  then show ?thesis by (simp add: g3 sn_def)
qed

lemma eat_safe:
  assumes "safe g" and "\<not> grow (snake g)" and "eat draws g = Some g'"
  shows "safe g'"
  using assms
  by (auto simp: eat_def safe_def Let_def split: option.splits)

lemma tick_safe:
  assumes "safe g" and "\<not> gameOver g" and "tick draws g = Some g'"
  shows "safe g'"
proof -
  from assms(3) obtain g3 h where a: "advance g = Some (g3, h)"
    by (auto simp: tick_def split: option.splits)
  from advance_safe [OF assms(1,2) a] have s3: "safe g3" and ng: "\<not> grow (snake g3)"
    by simp_all
  show ?thesis
  proof (cases "eating g3 h")
    case True
    with assms(3) a have "eat draws g3 = Some g'" by (simp add: tick_def)
    from eat_safe [OF s3 ng this] show ?thesis .
  next
    case False
    with assms(3) a s3 show ?thesis by (simp add: tick_def)
  qed
qed

lemma safe_fields:
  assumes "snake g' = snake g" and "gameOver g' = gameOver g" and "score g' = score g"
  shows "safe g' = safe g"
  by (simp only: safe_def assms)

lemma record_highscore_safe: "safe g \<Longrightarrow> safe (record_highscore g)"
proof -
  have "safe (record_highscore g) = safe g"
    by (rule safe_fields) (simp_all add: record_highscore_def Let_def)
  then show "safe g \<Longrightarrow> safe (record_highscore g)" by simp
qed

lemma frame_safe:
  assumes "safe g" and "frame draws inp g = Some g'"
  shows "safe g'"
proof -
  from assms(2) obtain g1 where p: "poll_events draws (fst inp) g = Some g1"
    by (auto simp: frame_def split: option.splits)
  from poll_events_safe [OF assms(1) p] have s1: "safe g1" .
  let ?g2 = "g1\<lparr>acc_s := acc_s g1 + snd inp\<rparr>"
  have s2: "safe ?g2" using s1 by (simp add: safe_def)
  show ?thesis
  proof (cases "\<not> gameOver ?g2 \<and> acc_s ?g2 \<ge> moveDelay ?g2")
    case True
    let ?g2' = "?g2\<lparr>acc_s := acc_s ?g2 - moveDelay ?g2\<rparr>"
    from True assms(2) p obtain g3 where
      t: "tick draws ?g2' = Some g3" and g': "g' = record_highscore g3"
      by (auto simp: frame_def Let_def split: option.splits)
    have "safe ?g2'" using s1 by (simp add: safe_def)
    moreover from True have "\<not> gameOver ?g2'" by simp
    ultimately have "safe g3" using t by (rule tick_safe)
    then show ?thesis unfolding g' by (rule record_highscore_safe)
  next
    case False
    with assms(2) p have "g' = record_highscore ?g2"
      by (auto simp: frame_def Let_def split: option.splits if_splits)
    with s2 show ?thesis by (simp add: record_highscore_safe)
  qed
qed

lemma frames_safe:
  assumes "safe g" and "frames draws inps g = Some g'"
  shows "safe g'"
  using assms
proof (induction inps arbitrary: g)
  case Nil
  then show ?case by simp
next
  case (Cons inp inps)
  show ?case
  proof (cases "window_open g")
    case False
    with Cons.prems show ?thesis by simp
  next
    case True
    with Cons.prems(2) obtain g1 where
      f: "frame draws inp g = Some g1" and r: "frames draws inps g1 = Some g'"
      by (auto split: option.splits)
    from Cons.IH [OF frame_safe [OF Cons.prems(1) f] r] show ?thesis .
  qed
qed

lemma safe_bounds:
  assumes "safe g"
  shows "(\<forall>c\<in>set (body (snake g)). -1 \<le> fst c \<and> fst c \<le> 40 \<and> -1 \<le> snd c \<and> snd c \<le> 30)
       \<and> 0 \<le> score g \<and> score g \<le> 12010"
proof -
  from assms obtain h t where b: "body (snake g) = h # t" and nb: "near_board h"
    and t: "distinct t" "\<forall>c\<in>set t. \<not> out_of_bounds c"
    and sc: "score g = 10 * (int (length (body (snake g))) - 1 + (if grow (snake g) then 1 else 0))"
    unfolding safe_def by blast
  have "\<forall>c\<in>set t. near_board c"
    using t(2) by (auto simp: near_board_def out_of_bounds_def COLS_def ROWS_def)
  with nb b have cells: "\<forall>c\<in>set (body (snake g)). -1 \<le> fst c \<and> fst c \<le> 40 \<and> -1 \<le> snd c \<and> snd c \<le> 30"
    by (auto simp: near_board_def COLS_def ROWS_def)
  have "set t \<subseteq> grid" using t(2) by (auto simp: in_grid_iff)
  moreover have "finite grid" by (simp add: grid_def)
  ultimately have "card (set t) \<le> card grid" by (rule card_mono [rotated])
  with t(1) have "length t \<le> 1200" by (simp add: distinct_card card_grid)
  with sc b have "0 \<le> score g \<and> score g \<le> 12010" by auto
  with cells show ?thesis by blast
qed

text \<open>
  The snakes \<open>spawnFood\<close> is called with: \<open>resetGame\<close> in lines 83 and 108, and
  in line 134 the snake of a state that the move left in play.
\<close>

lemma reset_argument_valid:
  "distinct (body resetGame) \<and> (\<forall>c\<in>set (body resetGame). \<not> out_of_bounds c)"
  by (simp add: resetGame_def Snake_init_def out_of_bounds_def COLS_def ROWS_def)

lemma eat_argument_valid:
  assumes "safe g" and "\<not> gameOver g" and "advance g = Some (g3, h)" and "eating g3 h"
  shows "distinct (body ((snake g3)\<lparr>grow := True\<rparr>))
       \<and> (\<forall>c\<in>set (body ((snake g3)\<lparr>grow := True\<rparr>)). \<not> out_of_bounds c)"
proof -
  from advance_safe [OF assms(1-3)] have "safe g3" by simp
  moreover from assms(4) have "\<not> gameOver g3" by (simp add: eating_def)
  ultimately show ?thesis by (auto simp: safe_def)
qed

end
